theory Spec2Isabelle
  imports Complex_Main "HOL-Library.Word" "HOL-Library.Sublist"
begin

section \<open>JavaScript values\<close>

text \<open>
  A JavaScript string is a sequence of UTF-16 code units; \<open>length\<close>, \<open>slice\<close>, \<open>trim\<close>
  and a regular expression without the \<open>u\<close> flag all work on code units.  String
  literals of the server are ASCII, written \<open>lit ''...''\<close>.
\<close>

type_synonym jsstring = "16 word list"

definition lit :: "string \<Rightarrow> jsstring" where
  "lit s = map of_char s"

text \<open>
  A number is a double: a finite value (\<open>-0\<close> and \<open>0\<close> are both \<open>Finite 0\<close>), an
  infinity or NaN.  The server never computes with the numbers of a request; only their
  type and their truthiness are observed.
\<close>

datatype jsnum = Finite rat | PosInf | NegInf | NaN

text \<open>
  The values that \<open>express.json()\<close>, \<open>res.json()\<close> and \<open>JSON.parse\<close> produce, and the
  object literals the server builds.  A field of an object is looked up by key; a missing
  field, and \<open>undefined\<close> in general, is \<open>None\<close> of \<open>json option\<close>.
\<close>

datatype json = JNull | JBool bool | JNum jsnum | JStr jsstring
  | JArr "json list" | JObj "(jsstring \<times> json) list"

section \<open>Sanitization of names\<close>

text \<open>
  The code units that \<open>String.prototype.trim\<close> removes: WhiteSpace and LineTerminator of
  ECMAScript (TAB, LF, VT, FF, CR, SP, NBSP, U+1680, U+2000 to U+200A, U+2028, U+2029,
  U+202F, U+205F, U+3000 and U+FEFF).
\<close>

definition is_ws :: "16 word \<Rightarrow> bool" where
  "is_ws c \<longleftrightarrow>
     c \<in> set [0x9, 0xA, 0xB, 0xC, 0xD, 0x20, 0xA0, 0x1680, 0x2028, 0x2029,
               0x202F, 0x205F, 0x3000, 0xFEFF]
     \<or> (0x2000 \<le> c \<and> c \<le> 0x200A)"

text \<open>\<open>str.replace(/c/g, r)\<close> for a one-character pattern and a replacement without \<open>$\<close>.\<close>

definition replace_all :: "16 word \<Rightarrow> jsstring \<Rightarrow> jsstring \<Rightarrow> jsstring" where
  "replace_all c r str = concat (map (\<lambda>x. if x = c then r else [x]) str)"

definition trim :: "jsstring \<Rightarrow> jsstring" where
  "trim str = rev (dropWhile is_ws (rev (dropWhile is_ws str)))"

text \<open>The five replacements of \<open>sanitize\<close>, in the order of the source.\<close>

definition escape :: "jsstring \<Rightarrow> jsstring" where
  "escape str =
     replace_all (of_char (CHR 0x27)) (lit ''&#x27;'')
       (replace_all (of_char (CHR 0x22)) (lit ''&quot;'')
         (replace_all (of_char CHR ''>'') (lit ''&gt;'')
           (replace_all (of_char CHR ''<'') (lit ''&lt;'')
             (replace_all (of_char CHR ''&'') (lit ''&amp;'') str))))"

text \<open>
  \<open>sanitize(str)\<close>: the empty string unless \<open>typeof str === 'string'\<close>; otherwise the
  escaped text, trimmed, then cut to its first 50 code units.
\<close>

definition sanitize :: "json option \<Rightarrow> jsstring" where
  "sanitize str =
     (case str of
        Some (JStr s) \<Rightarrow> take 50 (trim (escape s))
      | _ \<Rightarrow> [])"

text \<open>What one code unit becomes under the five replacements.\<close>

definition esc :: "16 word \<Rightarrow> jsstring" where
  "esc c =
     (if c = 38 then lit ''&amp;'' else if c = 60 then lit ''&lt;''
      else if c = 62 then lit ''&gt;'' else if c = 34 then lit ''&quot;''
      else if c = 39 then lit ''&#x27;'' else [c])"

definition entities :: "jsstring list" where
  "entities = [lit ''&amp;'', lit ''&lt;'', lit ''&gt;'', lit ''&quot;'', lit ''&#x27;'']"

text \<open>Every \<open>&\<close> of the text begins one of the five entities, written out in full.\<close>

definition amp_complete :: "jsstring \<Rightarrow> bool" where
  "amp_complete t \<longleftrightarrow>
     (\<forall>zs. suffix zs t \<longrightarrow> zs \<noteq> [] \<longrightarrow> hd zs = 38 \<longrightarrow> (\<exists>e \<in> set entities. prefix e zs))"

text \<open>The code units of \<open><\<close>, \<open>>\<close>, the double quote and the single quote.\<close>

definition raw_specials :: "16 word set" where
  "raw_specials = {60, 62, 34, 39}"

section \<open>The JSON built-ins and the completion service\<close>

text \<open>
  \<open>JSON.parse\<close> and \<open>JSON.stringify\<close> belong to the language, not to the server: they
  are parameters of the model.  \<open>JSON_parse\<close> gives \<open>None\<close> where the built-in throws
  a SyntaxError.  \<open>JSON.stringify(undefined)\<close> is \<open>undefined\<close>, which the database
  driver binds as NULL; every other value of type \<open>json\<close> has a text.
\<close>

record json_lib =
  JSON_parse :: "jsstring \<Rightarrow> json option"
  JSON_stringify :: "json \<Rightarrow> jsstring"

definition stringify_opt :: "json_lib \<Rightarrow> json option \<Rightarrow> jsstring option" where
  "stringify_opt J v = map_option (JSON_stringify J) v"

datatype js_error = SyntaxError | TypeError | SqliteError

text \<open>Truthiness, as \<open>!x\<close> and \<open>x || y\<close> test it.\<close>

fun truthy :: "json \<Rightarrow> bool" where
  "truthy JNull = False"
| "truthy (JBool b) = b"
| "truthy (JNum n) = (n \<noteq> Finite 0 \<and> n \<noteq> NaN)"
| "truthy (JStr s) = (s \<noteq> [])"
| "truthy (JArr xs) = True"
| "truthy (JObj fs) = True"

text \<open>
  Property reads on a value that is neither \<open>null\<close> nor \<open>undefined\<close>: \<open>v.k\<close> for a key
  \<open>k\<close> that no prototype defines (\<open>choices\<close>, \<open>message\<close>, \<open>content\<close>), and \<open>v[0]\<close>.
\<close>

fun get_prop :: "jsstring \<Rightarrow> json \<Rightarrow> json option" where
  "get_prop k (JObj fs) = map_of fs k"
| "get_prop k v = None"

fun index0 :: "json \<Rightarrow> json option" where
  "index0 (JArr xs) = (case xs of [] \<Rightarrow> None | x # _ \<Rightarrow> Some x)"
| "index0 (JStr s) = (case s of [] \<Rightarrow> None | c # _ \<Rightarrow> Some (JStr [c]))"
| "index0 (JObj fs) = map_of fs (lit ''0'')"
| "index0 v = None"

text \<open>Optional chaining \<open>x?.\<close>: \<open>undefined\<close> when \<open>x\<close> is \<open>null\<close> or \<open>undefined\<close>.\<close>

fun opt_chain :: "json option \<Rightarrow> (json \<Rightarrow> json option) \<Rightarrow> json option" where
  "opt_chain None f = None"
| "opt_chain (Some JNull) f = None"
| "opt_chain (Some v) f = f v"

text \<open>
  What \<open>callAI\<close> meets outside the process: the environment variable
  \<open>SYNTHETIC_API_KEY\<close>, and the outcome of \<open>fetch\<close> followed by \<open>res.json()\<close>, which
  either throws or yields the parsed body.
\<close>

datatype fetch_outcome = FetchFailed | FetchedJson json

record ai_world =
  api_key :: "jsstring option"
  fetch_result :: fetch_outcome

text \<open>
  \<open>callAI\<close>: \<open>null\<close> without a key, \<open>null\<close> when anything in the \<open>try\<close> block throws
  (also the TypeError of \<open>data.choices\<close> on a \<open>null\<close> body), and otherwise
  \<open>data.choices?.[0]?.message?.content || null\<close>.
\<close>

definition callAI :: "ai_world \<Rightarrow> json" where
  "callAI ai =
     (case api_key ai of
        None \<Rightarrow> JNull
      | Some apiKey \<Rightarrow>
          if apiKey = [] then JNull
          else (case fetch_result ai of
                  FetchFailed \<Rightarrow> JNull
                | FetchedJson data \<Rightarrow>
                    (case data of
                       JNull \<Rightarrow> JNull
                     | _ \<Rightarrow>
                        (case opt_chain (opt_chain (opt_chain (get_prop (lit ''choices'') data)
                                  index0) (get_prop (lit ''message''))) (get_prop (lit ''content'')) of
                           None \<Rightarrow> JNull
                         | Some content \<Rightarrow> if truthy content then content else JNull))))"

section \<open>Recommendation synthesis\<close>

text \<open>
  A row of the table \<open>participants\<close>.  The column \<open>completed\<close> is an INTEGER that only
  ever holds 0 or 1 and is only tested for truth.
\<close>

record participant =
  p_id :: jsstring
  session_id :: jsstring
  name :: jsstring
  answers :: "jsstring option"
  completed :: bool
  p_created_at :: int

text \<open>
  \<open>participants.map(p => ({name: p.name, answers: JSON.parse(p.answers || '{}')}))\<close>:
  a NULL or empty column reads as \<open>{}\<close>; the first text that does not parse throws.
\<close>

definition answers_text :: "participant \<Rightarrow> jsstring" where
  "answers_text p = (case answers p of None \<Rightarrow> lit ''{}'' | Some t \<Rightarrow> if t = [] then lit ''{}'' else t)"

fun participantData :: "json_lib \<Rightarrow> participant list \<Rightarrow> js_error + (jsstring \<times> json) list" where
  "participantData J [] = Inr []"
| "participantData J (p # ps) =
     (case JSON_parse J (answers_text p) of
        None \<Rightarrow> Inl SyntaxError
      | Some a \<Rightarrow>
          (case participantData J ps of
             Inl e \<Rightarrow> Inl e
           | Inr rest \<Rightarrow> Inr ((name p, a) # rest)))"

text \<open>
  \<open>result.match(/\{[\s\S]*\}/)\<close>: the span from the first \<open>{\<close> to the last \<open>}\<close> behind
  it, or no match.
\<close>

definition match_braces :: "jsstring \<Rightarrow> jsstring option" where
  "match_braces result =
     (case dropWhile (\<lambda>c. c \<noteq> 123) result of
        [] \<Rightarrow> None
      | b # after \<Rightarrow>
          (case rev (dropWhile (\<lambda>c. c \<noteq> 125) (rev after)) of
             [] \<Rightarrow> None
           | inner \<Rightarrow> Some (b # inner)))"

text \<open>The three object literals that \<open>generateResults\<close> returns when it has no parsed answer.\<close>

definition placeholder_writeup :: "jsstring \<Rightarrow> json" where
  "placeholder_writeup n =
     JObj [(lit ''name'', JStr n),
           (lit ''taste_summary'', JStr (lit ''Analysis unavailable'')),
           (lit ''personal_recs'', JArr [])]"

definition unavailable_result :: "(jsstring \<times> json) list \<Rightarrow> json" where
  "unavailable_result pd =
     JObj [(lit ''group_summary'',
              JStr (lit ''Could not generate recommendations. Check server configuration.'')),
           (lit ''recommendations'', JArr []),
           (lit ''individual_writeups'', JArr (map (\<lambda>p. placeholder_writeup (fst p)) pd))]"

definition pending_result :: json where
  "pending_result =
     JObj [(lit ''group_summary'', JStr (lit ''Analysis pending'')),
           (lit ''recommendations'', JArr []),
           (lit ''individual_writeups'', JArr [])]"

definition generated_result :: json where
  "generated_result =
     JObj [(lit ''group_summary'', JStr (lit ''Analysis generated'')),
           (lit ''recommendations'', JArr []),
           (lit ''individual_writeups'', JArr [])]"

text \<open>
  \<open>generateResults(participants)\<close>.  The prompt sent to the service only influences the
  reply, which is part of \<open>ai_world\<close>.  A truthy reply that is not a string has no
  \<open>match\<close> method: the TypeError is thrown inside the \<open>try\<close> block and caught there.
\<close>

definition generateResults :: "json_lib \<Rightarrow> ai_world \<Rightarrow> participant list \<Rightarrow> js_error + json" where
  "generateResults J ai participants =
     (case participantData J participants of
        Inl e \<Rightarrow> Inl e
      | Inr pd \<Rightarrow>
          (let result = callAI ai in
           if \<not> truthy result then Inr (unavailable_result pd)
           else (case result of
                   JStr text \<Rightarrow>
                     (case match_braces text of
                        Some jsonMatch \<Rightarrow>
                          (case JSON_parse J jsonMatch of
                             Some parsed \<Rightarrow> Inr parsed
                           | None \<Rightarrow> Inr generated_result)
                      | None \<Rightarrow> Inr pending_result)
                 | _ \<Rightarrow> Inr generated_result)))"

text \<open>
  A stand-in for the built-ins in concrete evaluations.  It serializes \<open>null\<close>, \<open>true\<close>
  and \<open>false\<close> as ECMAScript does and parses these texts and \<open>{}\<close> back; every other
  value is written as the text \<open>{}\<close> and every other text is rejected.
\<close>

definition json_atoms :: json_lib where
  "json_atoms =
     \<lparr> JSON_parse = (\<lambda>t. if t = lit ''{}'' then Some (JObj [])
                          else if t = lit ''null'' then Some JNull
                          else if t = lit ''true'' then Some (JBool True)
                          else if t = lit ''false'' then Some (JBool False)
                          else None),
       JSON_stringify = (\<lambda>v. case v of
                            JNull \<Rightarrow> lit ''null''
                          | JBool b \<Rightarrow> if b then lit ''true'' else lit ''false''
                          | _ \<Rightarrow> lit ''{}'') \<rparr>"

text \<open>A service that answers with the given message content.\<close>

definition replying :: "json \<Rightarrow> ai_world" where
  "replying content =
     \<lparr> api_key = Some (lit ''key''),
       fetch_result = FetchedJson (JObj [(lit ''choices'',
          JArr [JObj [(lit ''message'', JObj [(lit ''content'', content)])]])]) \<rparr>"

definition no_key :: ai_world where
  "no_key = \<lparr> api_key = None, fetch_result = FetchFailed \<rparr>"

text \<open>
  A stored \<open>answers\<close> column is valid when it is NULL or a text that \<open>JSON.parse\<close>
  accepts.
\<close>

definition answers_valid :: "json_lib \<Rightarrow> participant \<Rightarrow> bool" where
  "answers_valid J p \<longleftrightarrow> (case answers p of None \<Rightarrow> True | Some t \<Rightarrow> JSON_parse J t \<noteq> None)"

text \<open>
  The shape of a degraded result: no recommendations, a non-empty group summary, and the
  given list of individual write-ups.
\<close>

definition fallback_shape :: "json \<Rightarrow> json list \<Rightarrow> bool" where
  "fallback_shape r ws \<longleftrightarrow>
     get_prop (lit ''recommendations'') r = Some (JArr [])
     \<and> (case get_prop (lit ''group_summary'') r of Some (JStr g) \<Rightarrow> g \<noteq> [] | _ \<Rightarrow> False)
     \<and> get_prop (lit ''individual_writeups'') r = Some (JArr ws)"

text \<open>No JSON object can be parsed from the text: no brace span, or a span that does not parse.\<close>

definition unparsable :: "json_lib \<Rightarrow> jsstring \<Rightarrow> bool" where
  "unparsable J text \<longleftrightarrow>
     (case match_braces text of None \<Rightarrow> True | Some m \<Rightarrow> JSON_parse J m = None)"

definition alice :: participant where
  "alice = \<lparr> p_id = lit ''p1'', session_id = lit ''s1'', name = lit ''Alice'', answers = None,
             completed = True, p_created_at = 0 \<rparr>"

section \<open>The store\<close>

text \<open>
  The column \<open>status\<close> is TEXT with default \<open>'lobby'\<close>; the server writes only the
  literals \<open>'collecting'\<close> and \<open>'complete'\<close> to it.
\<close>

datatype session_status = Lobby | Collecting | Complete

record session =
  s_id :: jsstring
  status :: session_status
  host_name :: jsstring
  results :: "jsstring option"
  s_created_at :: int

text \<open>The two tables, rows in insertion order.\<close>

record store =
  sessions :: "session list"
  participants :: "participant list"

definition empty_store :: store where
  "empty_store = \<lparr> sessions = [], participants = [] \<rparr>"

text \<open>\<open>SELECT * FROM sessions WHERE id = ?\<close>, read with \<open>get\<close>.\<close>

definition find_session :: "store \<Rightarrow> jsstring \<Rightarrow> session option" where
  "find_session db sid = find (\<lambda>s. s_id s = sid) (sessions db)"

text \<open>\<open>SELECT * FROM participants WHERE id = ? AND session_id = ?\<close>, read with \<open>get\<close>.\<close>

definition find_participant :: "store \<Rightarrow> jsstring \<Rightarrow> jsstring \<Rightarrow> participant option" where
  "find_participant db participantId sid =
     find (\<lambda>p. p_id p = participantId \<and> session_id p = sid) (participants db)"

text \<open>\<open>SELECT * FROM participants WHERE session_id = ?\<close>, read with \<open>all\<close>.\<close>

definition participants_of :: "store \<Rightarrow> jsstring \<Rightarrow> participant list" where
  "participants_of db sid = filter (\<lambda>p. session_id p = sid) (participants db)"

text \<open>\<open>SELECT id, name, completed FROM participants WHERE session_id = ?\<close>.\<close>

definition roster :: "store \<Rightarrow> jsstring \<Rightarrow> (jsstring \<times> jsstring \<times> bool) list" where
  "roster db sid = map (\<lambda>p. (p_id p, name p, completed p)) (participants_of db sid)"

text \<open>
  The database holds text as UTF-8.  Binding a JavaScript string converts it, and a
  surrogate code unit that is not part of a pair (one can be left at the end of a name by
  the cut to 50 code units) is written as U+FFFD; this is what a later read returns.
  Identifiers are \<open>nanoid\<close> draws and route parameters, and the output of
  \<open>JSON.stringify\<close> escapes lone surrogates, so only names are affected.
\<close>

definition is_high_surrogate :: "16 word \<Rightarrow> bool" where
  "is_high_surrogate c \<longleftrightarrow> 0xD800 \<le> c \<and> c \<le> 0xDBFF"

definition is_low_surrogate :: "16 word \<Rightarrow> bool" where
  "is_low_surrogate c \<longleftrightarrow> 0xDC00 \<le> c \<and> c \<le> 0xDFFF"

fun stored_text :: "jsstring \<Rightarrow> jsstring" where
  "stored_text [] = []"
| "stored_text [c] = (if is_high_surrogate c \<or> is_low_surrogate c then [0xFFFD] else [c])"
| "stored_text (c # d # rest) =
     (if is_high_surrogate c \<and> is_low_surrogate d then c # d # stored_text rest
      else if is_high_surrogate c \<or> is_low_surrogate c then 0xFFFD # stored_text (d # rest)
      else c # stored_text (d # rest))"

text \<open>
  The two INSERT statements.  A second row with the same primary key is refused, and so
  is a participant without its session (the driver enforces foreign keys): the statement
  throws and the table is unchanged.
\<close>

definition insert_session :: "session \<Rightarrow> store \<Rightarrow> js_error + store" where
  "insert_session s db =
     (if find_session db (s_id s) \<noteq> None then Inl SqliteError
      else Inr (db\<lparr>sessions := sessions db @ [s]\<rparr>))"

definition insert_participant :: "participant \<Rightarrow> store \<Rightarrow> js_error + store" where
  "insert_participant p db =
     (if find (\<lambda>q. p_id q = p_id p) (participants db) \<noteq> None then Inl SqliteError
      else if find_session db (session_id p) = None then Inl SqliteError
      else Inr (db\<lparr>participants := participants db @ [p]\<rparr>))"

text \<open>\<open>UPDATE sessions SET ... WHERE id = ?\<close> and \<open>UPDATE participants SET ... WHERE id = ?\<close>.\<close>

definition update_session :: "jsstring \<Rightarrow> (session \<Rightarrow> session) \<Rightarrow> store \<Rightarrow> store" where
  "update_session sid f db =
     db\<lparr>sessions := map (\<lambda>s. if s_id s = sid then f s else s) (sessions db)\<rparr>"

definition update_participant :: "jsstring \<Rightarrow> (participant \<Rightarrow> participant) \<Rightarrow> store \<Rightarrow> store" where
  "update_participant participantId f db =
     db\<lparr>participants := map (\<lambda>p. if p_id p = participantId then f p else p) (participants db)\<rparr>"

section \<open>Request handlers\<close>

text \<open>The four events emitted to the room \<open>session:id\<close>; the first argument is the id.\<close>

datatype event =
    participant_joined jsstring jsstring
  | questions_ready jsstring
  | answer_submitted jsstring jsstring
  | results_ready jsstring json

text \<open>
  What a handler answers: \<open>Error c m\<close> is \<open>res.status(c).json({error: m})\<close>, the other
  constructors are the bodies of the successful answers, \<open>Raised e\<close> stands for a
  handler that threw (this code then writes no answer), and \<open>NoAnswer\<close> is the end of
  the timer callback, which answers nobody.
\<close>

datatype response =
    Error nat jsstring
  | SessionCreated jsstring jsstring jsstring
  | SessionInfo session "(jsstring \<times> jsstring \<times> bool) list" nat
  | Joined jsstring session "(jsstring \<times> jsstring \<times> bool) list"
  | QuizStarted
  | Submitted bool
  | ResultsInfo session "(jsstring \<times> jsstring option \<times> bool) list" json
  | Closed json
  | Raised js_error
  | NoAnswer

text \<open>
  The handlers of \<open>submit\<close> and \<open>close\<close> are asynchronous: they run without
  interruption up to \<open>await generateResults(participants)\<close> and continue when the
  completion service has answered.  \<open>Await h sid ps\<close> is a handler of kind \<open>h\<close> for session
  \<open>sid\<close> suspended there, with the participant rows it has read.
\<close>

datatype handler = SubmitHandler | CloseHandler

datatype progress = Done response | Await handler jsstring "participant list"

text \<open>
  The operations.  The arguments are the route parameter \<open>:id\<close>, the fields of the
  request body (\<open>None\<close> for a missing field; \<open>participantId\<close> is taken to be a string)
  and the identifiers that \<open>nanoid(8)\<close> draws.  \<open>Cleanup\<close> is the hourly timer.
\<close>

datatype operation =
    CreateSession "json option" jsstring jsstring
  | GetSession jsstring
  | JoinSession jsstring "json option" jsstring
  | StartQuiz jsstring
  | SubmitAnswers jsstring jsstring "json option"
  | GetResults jsstring
  | CloseEarly jsstring
  | Cleanup

text \<open>\<open>POST /api/session\<close>; \<open>now\<close> is \<open>unixepoch()\<close>, the default of \<open>created_at\<close>.\<close>

definition create_session ::
  "json option \<Rightarrow> jsstring \<Rightarrow> jsstring \<Rightarrow> int \<Rightarrow> store \<Rightarrow> store \<times> event list \<times> response" where
  "create_session hostName_field sid participantId now db =
     (let hostName = sanitize hostName_field in
      if hostName = [] then (db, [], Error 400 (lit ''Name is required''))
      else
        (case insert_session \<lparr> s_id = sid, status = Lobby, host_name = stored_text hostName,
                               results = None, s_created_at = now \<rparr> db of
           Inl e \<Rightarrow> (db, [], Raised e)
         | Inr db1 \<Rightarrow>
             (case insert_participant \<lparr> p_id = participantId, session_id = sid,
                                        name = stored_text hostName,
                                        answers = None, completed = False, p_created_at = now \<rparr> db1 of
                Inl e \<Rightarrow> (db1, [], Raised e)
              | Inr db2 \<Rightarrow> (db2, [], SessionCreated sid (lit ''/session/'' @ sid) participantId))))"

text \<open>\<open>GET /api/session/:id\<close>.\<close>

definition get_session :: "jsstring \<Rightarrow> store \<Rightarrow> response" where
  "get_session sid db =
     (case find_session db sid of
        None \<Rightarrow> Error 404 (lit ''Session not found'')
      | Some session \<Rightarrow>
          SessionInfo session (roster db sid)
            (length (filter (\<lambda>p. snd (snd p)) (roster db sid))))"

text \<open>\<open>POST /api/session/:id/join\<close>.\<close>

definition join_session ::
  "jsstring \<Rightarrow> json option \<Rightarrow> jsstring \<Rightarrow> int \<Rightarrow> store \<Rightarrow> store \<times> event list \<times> response" where
  "join_session sid name_field participantId now db =
     (let name = sanitize name_field in
      if name = [] then (db, [], Error 400 (lit ''Name is required''))
      else
        (case find_session db sid of
           None \<Rightarrow> (db, [], Error 404 (lit ''Session not found''))
         | Some session \<Rightarrow>
             (case insert_participant \<lparr> p_id = participantId, session_id = sid,
                                        name = stored_text name,
                                        answers = None, completed = False, p_created_at = now \<rparr> db of
                Inl e \<Rightarrow> (db, [], Raised e)
              | Inr db1 \<Rightarrow>
                  (db1, [participant_joined sid name], Joined participantId session (roster db1 sid)))))"

text \<open>\<open>POST /api/session/:id/generate\<close>.\<close>

definition start_quiz :: "jsstring \<Rightarrow> store \<Rightarrow> store \<times> event list \<times> response" where
  "start_quiz sid db =
     (case find_session db sid of
        None \<Rightarrow> (db, [], Error 404 (lit ''Session not found''))
      | Some session \<Rightarrow>
          (update_session sid (\<lambda>s. s\<lparr>status := Collecting\<rparr>) db, [questions_ready sid], QuizStarted))"

text \<open>
  \<open>POST /api/session/:id/submit\<close>, up to the call of \<open>generateResults\<close>.  The test
  \<open>allCompleted && session.status !== 'complete'\<close> reads the session row fetched before
  the first UPDATE of \<open>status\<close>; on a missing row it throws a TypeError.
\<close>

definition submit_begin ::
  "json_lib \<Rightarrow> jsstring \<Rightarrow> jsstring \<Rightarrow> json option \<Rightarrow> store \<Rightarrow> store \<times> event list \<times> progress" where
  "submit_begin J sid participantId answers_field db =
     (case find_participant db participantId sid of
        None \<Rightarrow> (db, [], Done (Error 404 (lit ''Participant not found'')))
      | Some participant \<Rightarrow>
          (let db1 = update_participant participantId
                       (\<lambda>p. p\<lparr>answers := stringify_opt J answers_field, completed := True\<rparr>) db;
               session = find_session db1 sid;
               participants = participants_of db1 sid;
               allCompleted = list_all completed participants;
               db2 = (if allCompleted then update_session sid (\<lambda>s. s\<lparr>status := Complete\<rparr>) db1
                      else db1);
               emitted = [answer_submitted sid (name participant)]
           in if allCompleted then
                (case session of
                   None \<Rightarrow> (db2, emitted, Done (Raised TypeError))
                 | Some s \<Rightarrow>
                     if status s \<noteq> Complete then (db2, emitted, Await SubmitHandler sid participants)
                     else (db2, emitted, Done (Submitted allCompleted)))
              else (db2, emitted, Done (Submitted allCompleted))))"

text \<open>\<open>GET /api/session/:id/results\<close>.\<close>

definition get_results :: "json_lib \<Rightarrow> jsstring \<Rightarrow> store \<Rightarrow> response" where
  "get_results J sid db =
     (case find_session db sid of
        None \<Rightarrow> Error 404 (lit ''Session not found'')
      | Some session \<Rightarrow>
          (let rows = map (\<lambda>p. (name p, answers p, completed p)) (participants_of db sid) in
           case results session of
             None \<Rightarrow> ResultsInfo session rows JNull
           | Some text \<Rightarrow>
               if text = [] then ResultsInfo session rows JNull
               else (case JSON_parse J text of
                       None \<Rightarrow> Raised SyntaxError
                     | Some parsed \<Rightarrow> ResultsInfo session rows parsed)))"

text \<open>\<open>POST /api/session/:id/close\<close>, up to the call of \<open>generateResults\<close>.\<close>

definition close_begin :: "jsstring \<Rightarrow> store \<Rightarrow> store \<times> event list \<times> progress" where
  "close_begin sid db =
     (case find_session db sid of
        None \<Rightarrow> (db, [], Done (Error 404 (lit ''Session not found'')))
      | Some session \<Rightarrow>
          (let participants = filter (\<lambda>p. session_id p = sid \<and> completed p) (participants db) in
           if participants = [] then (db, [], Done (Error 400 (lit ''No completed participants'')))
           else (db, [], Await CloseHandler sid participants)))"

text \<open>
  The rest of both asynchronous handlers: when \<open>generateResults\<close> has returned, write
  \<open>results\<close> and \<open>status\<close>, emit \<open>results_ready\<close> and answer.  When it has thrown, the
  handler ends there.
\<close>

definition resume ::
  "json_lib \<Rightarrow> ai_world \<Rightarrow> handler \<Rightarrow> jsstring \<Rightarrow> participant list \<Rightarrow> store
     \<Rightarrow> store \<times> event list \<times> response" where
  "resume J ai h sid ps db =
     (case generateResults J ai ps of
        Inl e \<Rightarrow> (db, [], Raised e)
      | Inr res \<Rightarrow>
          (update_session sid (\<lambda>s. s\<lparr>results := Some (JSON_stringify J res), status := Complete\<rparr>) db,
           [results_ready sid res],
           (case h of SubmitHandler \<Rightarrow> Submitted True | CloseHandler \<Rightarrow> Closed res)))"

text \<open>
  \<open>cleanupOldSessions\<close>; \<open>now\<close> is \<open>Math.floor(Date.now() / 1000)\<close>.  Both DELETE
  statements use the same cutoff.
\<close>

definition cleanupOldSessions :: "int \<Rightarrow> store \<Rightarrow> store" where
  "cleanupOldSessions now db =
     (let cutoff = now - 24 * 60 * 60;
          old = map s_id (filter (\<lambda>s. s_created_at s < cutoff) (sessions db))
      in \<lparr> sessions = filter (\<lambda>s. \<not> s_created_at s < cutoff) (sessions db),
           participants = filter (\<lambda>p. session_id p \<notin> set old) (participants db) \<rparr>)"

text \<open>The first uninterrupted block of each operation: all of it for the synchronous ones.\<close>

fun begin_op :: "json_lib \<Rightarrow> int \<Rightarrow> operation \<Rightarrow> store \<Rightarrow> store \<times> event list \<times> progress" where
  "begin_op J now (CreateSession hostName sid participantId) db =
     (case create_session hostName sid participantId now db of (db1, ev, r) \<Rightarrow> (db1, ev, Done r))"
| "begin_op J now (GetSession sid) db = (db, [], Done (get_session sid db))"
| "begin_op J now (JoinSession sid name_field participantId) db =
     (case join_session sid name_field participantId now db of (db1, ev, r) \<Rightarrow> (db1, ev, Done r))"
| "begin_op J now (StartQuiz sid) db =
     (case start_quiz sid db of (db1, ev, r) \<Rightarrow> (db1, ev, Done r))"
| "begin_op J now (SubmitAnswers sid participantId answers_field) db =
     submit_begin J sid participantId answers_field db"
| "begin_op J now (GetResults sid) db = (db, [], Done (get_results J sid db))"
| "begin_op J now (CloseEarly sid) db = close_begin sid db"
| "begin_op J now Cleanup db = (cleanupOldSessions now db, [], Done NoAnswer)"

text \<open>
  An operation run from its request to its answer with no other operation in between;
  \<open>ai\<close> is what the completion service does if it is called.
\<close>

definition handle ::
  "json_lib \<Rightarrow> ai_world \<Rightarrow> int \<Rightarrow> operation \<Rightarrow> store \<Rightarrow> store \<times> event list \<times> response" where
  "handle J ai now op db =
     (case begin_op J now op db of
        (db1, ev, Done r) \<Rightarrow> (db1, ev, r)
      | (db1, ev, Await h sid ps) \<Rightarrow>
          (case resume J ai h sid ps db1 of (db2, ev2, r) \<Rightarrow> (db2, ev @ ev2, r)))"

text \<open>A sequence of operations, each with its clock reading and its completion service.\<close>

fun run :: "json_lib \<Rightarrow> (operation \<times> ai_world \<times> int) list \<Rightarrow> store \<Rightarrow> store" where
  "run J [] db = db"
| "run J ((op, ai, now) # rest) db = run J rest (fst (handle J ai now op db))"

section \<open>Interleaved handlers\<close>

text \<open>
  The server is one process with one thread: a handler runs without interruption until it
  awaits, and the database calls are synchronous.  So the state of the server is the
  store together with the handlers suspended at \<open>await generateResults(...)\<close>; a step
  either starts an operation, which runs its first block, or resumes a suspended handler
  with what the completion service did.  \<open>synth_calls\<close> records every call of
  \<open>generateResults\<close>, with the kind of handler that made it and the session.
\<close>

record server =
  srv_db :: store
  in_flight :: "(handler \<times> jsstring \<times> participant list) list"
  synth_calls :: "(handler \<times> jsstring) list"

datatype action = Start operation int | Resume nat ai_world

fun step :: "json_lib \<Rightarrow> action \<Rightarrow> server \<Rightarrow> server" where
  "step J (Start op now) srv =
     (case begin_op J now op (srv_db srv) of
        (db1, ev, Done r) \<Rightarrow> srv\<lparr>srv_db := db1\<rparr>
      | (db1, ev, Await h sid ps) \<Rightarrow>
          srv\<lparr>srv_db := db1,
              in_flight := in_flight srv @ [(h, sid, ps)],
              synth_calls := synth_calls srv @ [(h, sid)]\<rparr>)"
| "step J (Resume i ai) srv =
     (if i < length (in_flight srv) then
        (case in_flight srv ! i of
           (h, sid, ps) \<Rightarrow>
             srv\<lparr>srv_db := fst (resume J ai h sid ps (srv_db srv)),
                 in_flight := take i (in_flight srv) @ drop (Suc i) (in_flight srv)\<rparr>)
      else srv)"

fun exec :: "json_lib \<Rightarrow> action list \<Rightarrow> server \<Rightarrow> server" where
  "exec J [] srv = srv"
| "exec J (a # as) srv = exec J as (step J a srv)"

text \<open>How often a \<open>submit\<close> handler has called the synthesizer for the session.\<close>

definition submit_syntheses :: "jsstring \<Rightarrow> server \<Rightarrow> nat" where
  "submit_syntheses sid srv = length (filter (\<lambda>c. c = (SubmitHandler, sid)) (synth_calls srv))"

text \<open>
  The steps that open a session for completion: its creation, and \<open>StartQuiz\<close>, which
  writes \<open>'collecting'\<close> over any status.
\<close>

fun opens :: "jsstring \<Rightarrow> action \<Rightarrow> bool" where
  "opens sid (Start (CreateSession hostName sid' participantId) now) = (sid' = sid)"
| "opens sid (Start (StartQuiz sid') now) = (sid' = sid)"
| "opens sid a = False"

section \<open>Notions used in the statements\<close>

text \<open>\<open>typeof v === 'string'\<close>.\<close>

fun is_string :: "json option \<Rightarrow> bool" where
  "is_string (Some (JStr s)) = True"
| "is_string v = False"

text \<open>The order \<open>lobby\<close>, \<open>collecting\<close>, \<open>complete\<close>.\<close>

fun rank :: "session_status \<Rightarrow> nat" where
  "rank Lobby = 0"
| "rank Collecting = 1"
| "rank Complete = 2"

text \<open>
  The effect of an operation on a participant row that exists before it: only
  \<open>SubmitAnswers\<close> for a participant found in the named session changes rows, namely
  those with the submitted participant id.
\<close>

definition submitted_row :: "json_lib \<Rightarrow> operation \<Rightarrow> store \<Rightarrow> participant \<Rightarrow> participant" where
  "submitted_row J op db p =
     (case op of
        SubmitAnswers sid participantId answers_field \<Rightarrow>
          if p_id p = participantId \<and> find_participant db participantId sid \<noteq> None
          then p\<lparr>answers := stringify_opt J answers_field, completed := True\<rparr>
          else p
      | _ \<Rightarrow> p)"

text \<open>The primary key of \<open>sessions\<close>, and stored answers that \<open>generateResults\<close> can read.\<close>

definition store_ok :: "json_lib \<Rightarrow> store \<Rightarrow> bool" where
  "store_ok J db \<longleftrightarrow>
     distinct (map s_id (sessions db))
     \<and> list_all (\<lambda>p. JSON_parse J (answers_text p) \<noteq> None) (participants db)"

definition bob :: participant where
  "bob = \<lparr> p_id = lit ''p2'', session_id = lit ''s1'', name = lit ''Bob'', answers = None,
           completed = False, p_created_at = 0 \<rparr>"

definition party :: session where
  "party = \<lparr> s_id = lit ''s1'', status = Collecting, host_name = lit ''Alice'',
             results = None, s_created_at = 0 \<rparr>"

definition lounge :: store where
  "lounge = \<lparr> sessions = [party], participants = [alice, bob] \<rparr>"

text \<open>Calls used in concrete evaluations: Alice creates session \<open>s1\<close>, and submits.\<close>

definition create_alice :: "operation \<times> ai_world \<times> int" where
  "create_alice = (CreateSession (Some (JStr (lit ''Alice''))) (lit ''s1'') (lit ''p1''), no_key, 0)"

definition submit_alice :: "json \<Rightarrow> operation \<times> ai_world \<times> int" where
  "submit_alice a = (SubmitAnswers (lit ''s1'') (lit ''p1'') (Some a), no_key, 0)"

definition start_s1 :: "operation \<times> ai_world \<times> int" where
  "start_s1 = (StartQuiz (lit ''s1''), no_key, 0)"

text \<open>
  How a session row can differ after an operation that is not a StartQuiz on it: not at
  all, by \<open>status\<close> set to \<open>'complete'\<close>, or by \<open>results\<close> written together with
  \<open>status\<close> set to \<open>'complete'\<close>.
\<close>

definition moved :: "session \<Rightarrow> session \<Rightarrow> bool" where
  "moved s s' \<longleftrightarrow> s' = s \<or> s' = s\<lparr>status := Complete\<rparr>
     \<or> (\<exists>r. s' = s\<lparr>results := Some r, status := Complete\<rparr>)"

text \<open>Every complete session has results.\<close>

definition settled :: "store \<Rightarrow> bool" where
  "settled db \<longleftrightarrow> list_all (\<lambda>s. status s = Complete \<longrightarrow> results s \<noteq> None) (sessions db)"

definition submit_null_alice :: "operation \<times> ai_world \<times> int" where
  "submit_null_alice = submit_alice JNull"

text \<open>The stored answers of the participant can be read by \<open>generateResults\<close>.\<close>

definition pok :: "json_lib \<Rightarrow> participant \<Rightarrow> bool" where
  "pok J p \<longleftrightarrow> JSON_parse J (answers_text p) \<noteq> None"

text \<open>
  No row of the session is open for completion: every row with this id, if there is one,
  has status \<open>'complete'\<close>.
\<close>

definition sealed :: "jsstring \<Rightarrow> store \<Rightarrow> bool" where
  "sealed sid db \<longleftrightarrow> list_all (\<lambda>s. s_id s = sid \<longrightarrow> status s = Complete) (sessions db)"

text \<open>A server with no handler in flight.\<close>

definition idle :: "store \<Rightarrow> server" where
  "idle d = \<lparr> srv_db = d, in_flight = [], synth_calls = [] \<rparr>"

text \<open>
  Two submissions racing to be the last: Bob's handler is suspended in the synthesizer
  when Alice's second submission arrives, and is resumed afterwards.
\<close>

definition race :: "action list" where
  "race = [Start (SubmitAnswers (lit ''s1'') (lit ''p2'') (Some JNull)) 0,
           Start (SubmitAnswers (lit ''s1'') (lit ''p1'') (Some (JBool True))) 0,
           Resume 0 no_key]"

text \<open>A \<open>submit\<close> handler for the session is suspended in the synthesizer.\<close>

definition synthesizing :: "jsstring \<Rightarrow> server \<Rightarrow> bool" where
  "synthesizing sid srv \<longleftrightarrow>
     list_ex (\<lambda>e. fst e = SubmitHandler \<and> fst (snd e) = sid) (in_flight srv)"

text \<open>
  Every complete session has results, except possibly the sessions of the set \<open>A\<close>; and
  the participant rows held by the suspended handlers can be read by \<open>generateResults\<close>.
\<close>

definition wsettled :: "jsstring set \<Rightarrow> store \<Rightarrow> bool" where
  "wsettled A db \<longleftrightarrow>
     (\<forall>s \<in> set (sessions db). status s = Complete \<longrightarrow> results s \<noteq> None \<or> s_id s \<in> A)"

definition flights_ok :: "json_lib \<Rightarrow> server \<Rightarrow> bool" where
  "flights_ok J srv \<longleftrightarrow> (\<forall>e \<in> set (in_flight srv). \<forall>p \<in> set (snd (snd e)). pok J p)"

text \<open>What the first block of an operation leaves, and what it is then waiting for.\<close>

definition after_begin ::
  "json_lib \<Rightarrow> jsstring set \<Rightarrow> store \<times> event list \<times> progress \<Rightarrow> bool" where
  "after_begin J A out \<longleftrightarrow>
     store_ok J (fst out)
     \<and> (case snd (snd out) of
          Done r \<Rightarrow> wsettled A (fst out)
        | Await h j ps \<Rightarrow>
            (\<forall>p \<in> set ps. pok J p)
            \<and> (case h of SubmitHandler \<Rightarrow> wsettled (insert j A) (fst out)
                        | CloseHandler \<Rightarrow> wsettled A (fst out)))"

text \<open>
  The invariant of the interleaved server: a complete session without results has a
  \<open>submit\<close> handler suspended in the synthesizer.
\<close>

definition exec_inv :: "json_lib \<Rightarrow> server \<Rightarrow> bool" where
  "exec_inv J srv \<longleftrightarrow>
     store_ok J (srv_db srv) \<and> flights_ok J srv
     \<and> wsettled {i. synthesizing i srv} (srv_db srv)"

text \<open>Alice creates her session and submits; her handler is not resumed yet.\<close>

definition alone_submitting :: "action list" where
  "alone_submitting =
     [Start (CreateSession (Some (JStr (lit ''Alice''))) (lit ''s1'') (lit ''p1'')) 0,
      Start (SubmitAnswers (lit ''s1'') (lit ''p1'') (Some JNull)) 0]"

section \<open>Properties of sanitization\<close>

lemma replace_all_append:
  "replace_all c r (xs @ ys) = replace_all c r xs @ replace_all c r ys"
  by (simp add: replace_all_def)

lemma replace_all_Cons:
  "replace_all c r (x # xs) = (if x = c then r else [x]) @ replace_all c r xs"
  by (simp add: replace_all_def)

lemma replace_all_Nil: "replace_all c r [] = []"
  by (simp add: replace_all_def)

lemma escape_Nil: "escape [] = []"
  by (simp add: escape_def replace_all_Nil)

lemma escape_Cons: "escape (c # s) = esc c @ escape s"
  by (simp add: escape_def esc_def replace_all_Cons replace_all_append replace_all_Nil lit_def)

lemma escape_concat: "escape s = concat (map esc s)"
  by (induction s) (simp_all add: escape_Nil escape_Cons)

lemma esc_suffix_amp:
  assumes "suffix xs (esc c)" "xs \<noteq> []" "hd xs = 38"
  shows "xs = esc c \<and> esc c \<in> set entities"
  using assms
  by (auto simp: esc_def entities_def lit_def suffix_Cons split: if_splits)

lemma amp_complete_escape: "amp_complete (escape s)"
proof (induction s)
  case Nil
  show ?case by (simp add: amp_complete_def escape_Nil)
next
  case (Cons c s)
  show ?case
    unfolding amp_complete_def
  proof (intro allI impI)
    fix zs
    assume suf: "suffix zs (escape (c # s))" and ne: "zs \<noteq> []" and hd: "hd zs = 38"
    from suf have "suffix zs (escape s) \<or> (\<exists>xs. suffix xs (esc c) \<and> zs = xs @ escape s)"
      by (auto simp: escape_Cons suffix_append)
    then show "\<exists>e \<in> set entities. prefix e zs"
    proof
      assume "suffix zs (escape s)"
      with Cons ne hd show ?thesis by (simp add: amp_complete_def)
    next
      assume "\<exists>xs. suffix xs (esc c) \<and> zs = xs @ escape s"
      then obtain xs where xs: "suffix xs (esc c)" and zs: "zs = xs @ escape s" by blast
      show ?thesis
      proof (cases "xs = []")
        case True
        with zs Cons ne hd show ?thesis by (simp add: amp_complete_def)
      next
        case False
        with hd zs have "hd xs = 38" by simp
        from esc_suffix_amp [OF xs False this]
        have "esc c \<in> set entities" and "xs = esc c" by simp_all
        with zs have "esc c \<in> set entities \<and> prefix (esc c) zs" by simp
        then show ?thesis by blast
      qed
    qed
  qed
qed

lemma set_esc: "set (esc c) \<inter> raw_specials = {}"
  by (simp add: esc_def raw_specials_def lit_def)

lemma set_escape: "set (escape s) \<inter> raw_specials = {}"
  using set_esc by (induction s) (auto simp: escape_Nil escape_Cons)

lemma entity_no_ws: "e \<in> set entities \<Longrightarrow> c \<in> set e \<Longrightarrow> \<not> is_ws c"
  by (auto simp: entities_def lit_def is_ws_def)

lemma trim_decomp:
  "\<exists>a b. s = a @ trim s @ b \<and> (\<forall>c \<in> set a. is_ws c) \<and> (\<forall>c \<in> set b. is_ws c)"
proof -
  let ?d = "dropWhile is_ws s"
  let ?a = "takeWhile is_ws s"
  let ?b = "rev (takeWhile is_ws (rev ?d))"
  have "rev ?d = takeWhile is_ws (rev ?d) @ dropWhile is_ws (rev ?d)" by simp
  then have "?d = trim s @ ?b"
    by (metis rev_append rev_rev_ident trim_def)
  moreover have "s = ?a @ ?d" by simp
  ultimately have "s = ?a @ trim s @ ?b" by simp
  moreover have "\<forall>c \<in> set ?a. is_ws c" by (auto dest: set_takeWhileD)
  moreover have "\<forall>c \<in> set ?b. is_ws c" by (auto dest: set_takeWhileD)
  ultimately show ?thesis by blast
qed

lemma trim_last: "trim s \<noteq> [] \<Longrightarrow> \<not> is_ws (last (trim s))"
  by (simp add: trim_def last_rev hd_dropWhile)

lemma trim_hd:
  assumes "trim s \<noteq> []"
  shows "\<not> is_ws (hd (trim s))"
proof -
  let ?d = "dropWhile is_ws s"
  obtain b where d: "?d = trim s @ b"
    by (metis takeWhile_dropWhile_id rev_append rev_rev_ident trim_def)
  with assms have "?d \<noteq> []" by auto
  then have "\<not> is_ws (hd ?d)" by (rule hd_dropWhile)
  with d assms show ?thesis by (metis hd_append2)
qed

lemma set_trim: "set (trim s) \<subseteq> set s"
  using trim_decomp [of s] by (metis Un_upper1 Un_upper2 set_append subset_trans)

lemma amp_complete_trim:
  assumes "amp_complete s"
  shows "amp_complete (trim s)"
  unfolding amp_complete_def
proof (intro allI impI)
  fix zs
  assume suf: "suffix zs (trim s)" and ne: "zs \<noteq> []" and hd: "hd zs = 38"
  obtain a b where s: "s = a @ trim s @ b" and b: "\<forall>c \<in> set b. is_ws c"
    using trim_decomp by blast
  from suf obtain ys where "trim s = ys @ zs" by (auto simp: suffix_def)
  with s have "s = (a @ ys) @ (zs @ b)" by simp
  then have "suffix (zs @ b) s" by (metis suffixI)
  moreover from ne hd have "zs @ b \<noteq> []" "hd (zs @ b) = 38" by simp_all
  ultimately obtain e where e: "e \<in> set entities" and pre: "prefix e (zs @ b)"
    using assms unfolding amp_complete_def by blast
  from pre have "prefix e zs \<or> (\<exists>us. e = zs @ us \<and> prefix us b)"
    by (simp add: prefix_append)
  then have "prefix e zs"
  proof
    assume "\<exists>us. e = zs @ us \<and> prefix us b"
    then obtain us where us: "e = zs @ us" "prefix us b" by blast
    show ?thesis
    proof (cases us)
      case Nil
      with us show ?thesis by simp
    next
      case (Cons u us')
      with us have "u \<in> set e" "u \<in> set b" by (auto simp: prefix_def)
      with b entity_no_ws [OF e] show ?thesis by blast
    qed
  qed
  with e show "\<exists>e \<in> set entities. prefix e zs" by blast
qed

text \<open>
  Claim C7 (as amended).  The output of \<open>sanitize\<close> on a string is exactly the first
  50 code units of the escaped and trimmed input, where escaping replaces each \<open>&\<close>,
  \<open><\<close>, \<open>>\<close>, double quote and single quote by its entity and keeps every other
  code unit, and trimming removes whitespace, and nothing else, from both ends.  The
  output has at most 50 code units, contains none of \<open><\<close>, \<open>>\<close>, double quote and
  single quote, and does not begin with whitespace.  In the escaped and trimmed text every
  \<open>&\<close> begins one of the five entities and the last code unit is not whitespace; the
  output is that whole text whenever it has at most 50 code units.  (A longer text is cut
  after trimming, so the output may then end inside an entity or in whitespace.)
\<close>

theorem sanitize_output_shape:
  "sanitize (Some (JStr s)) = take 50 (trim (escape s))
   \<and> escape s = concat (map esc s)
   \<and> (\<exists>a b. escape s = a @ trim (escape s) @ b
             \<and> (\<forall>c \<in> set a. is_ws c) \<and> (\<forall>c \<in> set b. is_ws c))
   \<and> length (sanitize (Some (JStr s))) \<le> 50
   \<and> set (sanitize (Some (JStr s))) \<inter> raw_specials = {}
   \<and> (sanitize (Some (JStr s)) \<noteq> [] \<longrightarrow> \<not> is_ws (hd (sanitize (Some (JStr s)))))
   \<and> prefix (sanitize (Some (JStr s))) (trim (escape s))
   \<and> amp_complete (trim (escape s))
   \<and> (trim (escape s) \<noteq> [] \<longrightarrow> \<not> is_ws (last (trim (escape s))))
   \<and> (length (trim (escape s)) \<le> 50 \<longrightarrow> sanitize (Some (JStr s)) = trim (escape s))"
proof -
  let ?u = "trim (escape s)"
  have out: "sanitize (Some (JStr s)) = take 50 ?u" by (simp add: sanitize_def)
  have "set (take 50 ?u) \<subseteq> set (escape s)"
    using set_take_subset set_trim by (rule subset_trans)
  with set_escape [of s] have specials: "set (take 50 ?u) \<inter> raw_specials = {}" by blast
  have lead: "take 50 ?u \<noteq> [] \<longrightarrow> \<not> is_ws (hd (take 50 ?u))"
    using trim_hd [of "escape s"] by (cases ?u) auto
  have amp: "amp_complete ?u"
    using amp_complete_escape by (rule amp_complete_trim)
  have trail: "?u \<noteq> [] \<longrightarrow> \<not> is_ws (last ?u)"
    using trim_last by blast
  have rest: "length (sanitize (Some (JStr s))) \<le> 50
   \<and> set (sanitize (Some (JStr s))) \<inter> raw_specials = {}
   \<and> (sanitize (Some (JStr s)) \<noteq> [] \<longrightarrow> \<not> is_ws (hd (sanitize (Some (JStr s)))))
   \<and> prefix (sanitize (Some (JStr s))) (trim (escape s))
   \<and> amp_complete (trim (escape s))
   \<and> (trim (escape s) \<noteq> [] \<longrightarrow> \<not> is_ws (last (trim (escape s))))
   \<and> (length (trim (escape s)) \<le> 50 \<longrightarrow> sanitize (Some (JStr s)) = trim (escape s))"
    unfolding out using specials lead amp trail by (simp add: take_is_prefix)
  from out escape_concat [of s] trim_decomp [of "escape s"] rest show ?thesis by blast
qed

theorem sanitize_output_shape_witness:
  "sanitize (Some (JStr (lit '' <Al & Bo> ''))) = lit ''&lt;Al &amp; Bo&gt;''
   \<and> amp_complete (lit ''&lt;Al &amp; Bo&gt;'')"
proof -
  have t: "trim (escape (lit '' <Al & Bo> '')) = lit ''&lt;Al &amp; Bo&gt;''"
    by (simp add: trim_def escape_def replace_all_def lit_def is_ws_def)
  from sanitize_output_shape [of "lit '' <Al & Bo> ''"] show ?thesis
    unfolding t by (simp add: lit_def)
qed

text \<open>
  Claim C7 as stated fails: an entity cut by the 50-unit limit leaves a bare \<open>&\<close> at the
  end of the output, and a space that ends up at position 50 of a longer text stays as
  trailing whitespace.
\<close>

theorem sanitize_claim_counterexample:
  "sanitize (Some (JStr (replicate 49 97 @ lit ''<''))) = replicate 49 97 @ lit ''&''
   \<and> sanitize (Some (JStr (replicate 49 97 @ lit '' b''))) = replicate 49 97 @ lit '' ''
   \<and> is_ws (last (replicate 49 97 @ lit '' ''))"
  by code_simp

section \<open>Properties of recommendation synthesis\<close>

lemma callAI_null_or_truthy: "callAI ai = JNull \<or> truthy (callAI ai)"
  by (simp add: callAI_def split: option.splits fetch_outcome.splits json.splits)

lemma answers_text_parses:
  "JSON_parse J (lit ''{}'') \<noteq> None \<Longrightarrow> answers_valid J p \<Longrightarrow> JSON_parse J (answers_text p) \<noteq> None"
  by (simp add: answers_valid_def answers_text_def split: option.splits)

lemma participantData_total:
  "\<forall>p \<in> set ps. JSON_parse J (answers_text p) \<noteq> None \<Longrightarrow> \<exists>pd. participantData J ps = Inr pd"
  by (induction ps) auto

lemma participantData_names:
  "participantData J ps = Inr pd \<Longrightarrow> map fst pd = map name ps"
  by (induction ps arbitrary: pd) (auto split: option.splits sum.splits)

lemma participantData_valid:
  assumes "JSON_parse J (lit ''{}'') \<noteq> None" and "\<forall>p \<in> set ps. answers_valid J p"
  shows "\<exists>pd. participantData J ps = Inr pd"
proof -
  from assms have "\<forall>p \<in> set ps. JSON_parse J (answers_text p) \<noteq> None"
    by (simp add: answers_text_parses)
  then show ?thesis by (rule participantData_total)
qed

lemma fallback_shape_unavailable:
  "fallback_shape (unavailable_result pd) (map (\<lambda>p. placeholder_writeup (fst p)) pd)"
  by (simp add: fallback_shape_def unavailable_result_def lit_def)

lemma fallback_shape_pending: "fallback_shape pending_result []"
  by (simp add: fallback_shape_def pending_result_def lit_def)

lemma fallback_shape_generated: "fallback_shape generated_result []"
  by (simp add: fallback_shape_def generated_result_def lit_def)

lemma generateResults_cases:
  assumes "participantData J ps = Inr pd"
  shows "generateResults J ai ps =
     Inr (if callAI ai = JNull then unavailable_result pd
          else case callAI ai of
                 JStr text \<Rightarrow>
                   (case match_braces text of
                      None \<Rightarrow> pending_result
                    | Some m \<Rightarrow> (case JSON_parse J m of None \<Rightarrow> generated_result | Some v \<Rightarrow> v))
               | _ \<Rightarrow> generated_result)"
  using assms callAI_null_or_truthy [of ai]
  by (auto simp: generateResults_def Let_def split: json.splits option.splits)

lemma generateResults_total:
  assumes "JSON_parse J (lit ''{}'') \<noteq> None" and "\<forall>p \<in> set ps. answers_valid J p"
  shows "\<exists>results. generateResults J ai ps = Inr results"
proof -
  obtain pd where "participantData J ps = Inr pd"
    using participantData_valid [OF assms] by blast
  then show ?thesis by (simp add: generateResults_cases)
qed

text \<open>
  Claim C5 (as amended).  For every participant list whose stored answers are NULL or
  valid JSON: when the completion call returns \<open>null\<close>, \<open>generateResults\<close> returns a
  result with empty recommendations, a non-empty group summary and one placeholder
  write-up per input participant, in order (the participant's name, the text
  \<open>Analysis unavailable\<close>, no personal recommendations); when it returns text from which
  no JSON object can be parsed, the result has empty recommendations, a non-empty group
  summary and an empty list of write-ups.
\<close>

theorem fallback_results:
  assumes "JSON_parse J (lit ''{}'') \<noteq> None"
    and "\<forall>p \<in> set ps. answers_valid J p"
  shows "(callAI ai = JNull \<longrightarrow>
            (\<exists>r. generateResults J ai ps = Inr r
                 \<and> fallback_shape r (map (\<lambda>p. placeholder_writeup (name p)) ps)))
       \<and> (\<forall>text. callAI ai = JStr text \<and> unparsable J text \<longrightarrow>
            (\<exists>r. generateResults J ai ps = Inr r \<and> fallback_shape r []))"
proof -
  obtain pd where pd: "participantData J ps = Inr pd"
    using participantData_valid [OF assms] by blast
  have names: "map (\<lambda>p. placeholder_writeup (fst p)) pd = map (\<lambda>p. placeholder_writeup (name p)) ps"
  proof -
    have "map (\<lambda>p. placeholder_writeup (fst p)) pd = map placeholder_writeup (map fst pd)"
      by (simp add: comp_def)
    also have "\<dots> = map placeholder_writeup (map name ps)"
      by (simp only: participantData_names [OF pd])
    finally show ?thesis by (simp add: comp_def)
  qed
  show ?thesis
    using fallback_shape_unavailable [of pd] fallback_shape_pending fallback_shape_generated
    by (auto simp: generateResults_cases [OF pd] names unparsable_def split: option.splits)
qed

theorem fallback_results_witness:
  "JSON_parse json_atoms (lit ''{}'') \<noteq> None
   \<and> answers_valid json_atoms alice
   \<and> callAI no_key = JNull
   \<and> (\<exists>r. generateResults json_atoms no_key [alice] = Inr r
          \<and> fallback_shape r [placeholder_writeup (lit ''Alice'')])"
proof -
  have h1: "JSON_parse json_atoms (lit ''{}'') \<noteq> None"
    by (simp add: json_atoms_def)
  have h2: "\<forall>p \<in> set [alice]. answers_valid json_atoms p"
    by (simp add: answers_valid_def alice_def)
  have h3: "callAI no_key = JNull"
    by (simp add: callAI_def no_key_def)
  from fallback_results [OF h1 h2, of no_key] h1 h2 h3 show ?thesis
    by (simp add: alice_def)
qed

text \<open>
  Claim C5 as stated fails: a reply without any brace span, for one participant, gives the
  result \<open>Analysis pending\<close>, whose list of write-ups is empty.
\<close>

theorem fallback_counterexample:
  "callAI (replying (JStr (lit ''Sorry, no idea.''))) = JStr (lit ''Sorry, no idea.'')
   \<and> match_braces (lit ''Sorry, no idea.'') = None
   \<and> generateResults json_atoms (replying (JStr (lit ''Sorry, no idea.''))) [alice]
       = Inr pending_result
   \<and> get_prop (lit ''individual_writeups'') pending_result = Some (JArr [])"
  by code_simp

text \<open>
  Claim C6.  For every participant list whose stored answers are each NULL or a text that
  \<open>JSON.parse\<close> accepts, and for every behaviour of the completion service (no key, a
  failed request, any reply), \<open>generateResults\<close> does not raise: it returns one of its
  three fallback objects or the value parsed from the brace span of the reply.
\<close>

theorem generateResults_never_raises:
  assumes "JSON_parse J (lit ''{}'') \<noteq> None"
    and "\<forall>p \<in> set ps. answers_valid J p"
  shows "\<exists>results pd. generateResults J ai ps = Inr results
     \<and> participantData J ps = Inr pd
     \<and> (results = unavailable_result pd \<or> results = pending_result \<or> results = generated_result
        \<or> (\<exists>text m. callAI ai = JStr text \<and> match_braces text = Some m
                    \<and> JSON_parse J m = Some results))"
proof -
  obtain pd where pd: "participantData J ps = Inr pd"
    using participantData_valid [OF assms] by blast
  show ?thesis
    by (auto simp: generateResults_cases [OF pd] pd split: json.splits option.splits)
qed

theorem generateResults_never_raises_witness:
  "JSON_parse json_atoms (lit ''{}'') \<noteq> None
   \<and> answers_valid json_atoms alice
   \<and> generateResults json_atoms (replying (JStr (lit ''Here: {}''))) [alice] = Inr (JObj [])"
proof -
  have h1: "JSON_parse json_atoms (lit ''{}'') \<noteq> None"
    by (simp add: json_atoms_def)
  have h2: "\<forall>p \<in> set [alice]. answers_valid json_atoms p"
    by (simp add: answers_valid_def alice_def)
  have "generateResults json_atoms (replying (JStr (lit ''Here: {}''))) [alice] = Inr (JObj [])"
    by code_simp
  with generateResults_never_raises [OF h1 h2, of "replying (JStr (lit ''Here: {}''))"] h1 h2
  show ?thesis by simp
qed

section \<open>Properties of the request handlers\<close>

lemma sanitize_non_string: "\<not> is_string v \<Longrightarrow> sanitize v = []"
  by (cases v rule: is_string.cases) (simp_all add: sanitize_def)

text \<open>
  Claim C10.  When the name field of a CreateSession or JoinSession request is not a
  string (missing, a number, an object, ...), \<open>sanitize\<close> returns the empty string and
  the handler answers 400 with the error body \<open>Name is required\<close>; it does not throw
  and the store is unchanged.
\<close>

theorem non_string_name_rejected:
  assumes "\<not> is_string v"
  shows "sanitize v = []
     \<and> handle J ai now (CreateSession v sid pid) db = (db, [], Error 400 (lit ''Name is required''))
     \<and> handle J ai now (JoinSession sid v pid) db = (db, [], Error 400 (lit ''Name is required''))"
  using sanitize_non_string [OF assms]
  by (simp add: handle_def create_session_def join_session_def)

theorem non_string_name_rejected_witness:
  "\<not> is_string (Some (JNum (Finite 42)))
   \<and> sanitize (Some (JNum (Finite 42))) = []
   \<and> handle json_atoms no_key 0 (CreateSession (Some (JNum (Finite 42))) (lit ''s1'') (lit ''p1''))
         empty_store
       = (empty_store, [], Error 400 (lit ''Name is required''))
   \<and> handle json_atoms no_key 0 (JoinSession (lit ''s1'') None (lit ''p1'')) empty_store
       = (empty_store, [], Error 400 (lit ''Name is required''))"
proof -
  have h: "\<not> is_string (Some (JNum (Finite 42)))" by simp
  have h': "\<not> is_string None" by simp
  from non_string_name_rejected [OF h, of json_atoms no_key 0 "lit ''s1''" "lit ''p1''" empty_store]
       non_string_name_rejected [OF h', of json_atoms no_key 0 "lit ''s1''" "lit ''p1''" empty_store]
  show ?thesis by simp
qed

lemma participants_update_session [simp]:
  "participants (update_session sid f db) = participants db"
  by (simp add: update_session_def)

lemma resume_participants: "participants (fst (resume J ai h sid ps db)) = participants db"
  by (simp add: resume_def split: sum.splits)

lemma submitted_row_other:
  "\<forall>sid pid a. op \<noteq> SubmitAnswers sid pid a \<Longrightarrow> submitted_row J op db = (\<lambda>p. p)"
  by (cases op) (auto simp: submitted_row_def)

lemma submitted_row_miss:
  "find_participant db pid sid = None \<Longrightarrow> submitted_row J (SubmitAnswers sid pid a) db = (\<lambda>p. p)"
  by (auto simp: submitted_row_def)

lemma submitted_row_hit:
  "find_participant db pid sid = Some q \<Longrightarrow>
   submitted_row J (SubmitAnswers sid pid a) db =
     (\<lambda>p. if p_id p = pid then p\<lparr>answers := stringify_opt J a, completed := True\<rparr> else p)"
  by (auto simp: submitted_row_def)

lemma begin_op_participants:
  assumes "op \<noteq> Cleanup"
  shows "\<exists>extra. participants (fst (begin_op J now op db))
           = map (submitted_row J op db) (participants db) @ extra"
proof (cases op)
  case (CreateSession v sid pid)
  then show ?thesis
    by (auto simp: create_session_def insert_session_def insert_participant_def
        submitted_row_other Let_def split: sum.splits if_splits)
next
  case (JoinSession sid v pid)
  then show ?thesis
    by (auto simp: join_session_def insert_participant_def submitted_row_other Let_def
        split: option.splits if_splits)
next
  case (StartQuiz sid)
  then show ?thesis
    by (auto simp: start_quiz_def submitted_row_other split: option.splits)
next
  case (SubmitAnswers sid pid a)
  show ?thesis
  proof (cases "find_participant db pid sid")
    case None
    with SubmitAnswers show ?thesis
      by (simp add: submit_begin_def submitted_row_miss)
  next
    case (Some q)
    with SubmitAnswers show ?thesis
      by (auto simp: submit_begin_def submitted_row_hit update_participant_def Let_def
          split: option.splits)
  qed
next
  case (CloseEarly sid)
  then show ?thesis
    by (auto simp: close_begin_def submitted_row_other Let_def split: option.splits)
qed (use assms in \<open>simp_all add: submitted_row_other\<close>)

text \<open>
  Claim C9 (as amended).  No operation other than the retention sweep deletes, reorders
  or renames a participant row: after it the table is the old rows, in order, followed by
  any new row.  An old row differs from before only when the operation is a SubmitAnswers
  with that participant id (for a participant found in the named session); it then has the
  submitted answers and \<open>completed\<close> set.  Every submission writes the row again, so a
  participant can submit more than once and the later answers replace the earlier ones.
  \<open>completed\<close> is never reset, and id, session, name and creation time never change.
  The retention sweep only removes rows.
\<close>

theorem participant_rows_preserved:
  "(op \<noteq> Cleanup \<longrightarrow>
      (\<exists>extra. participants (fst (handle J ai now op db))
                = map (submitted_row J op db) (participants db) @ extra))
   \<and> (op = Cleanup \<longrightarrow>
      (\<exists>keep. participants (fst (handle J ai now op db)) = filter keep (participants db)))
   \<and> p_id (submitted_row J op db p) = p_id p
   \<and> session_id (submitted_row J op db p) = session_id p
   \<and> name (submitted_row J op db p) = name p
   \<and> p_created_at (submitted_row J op db p) = p_created_at p
   \<and> (completed p \<longrightarrow> completed (submitted_row J op db p))
   \<and> (submitted_row J op db p \<noteq> p \<longrightarrow>
        (\<exists>sid a. op = SubmitAnswers sid (p_id p) a
               \<and> submitted_row J op db p = p\<lparr>answers := stringify_opt J a, completed := True\<rparr>))"
proof -
  have handle_parts: "participants (fst (handle J ai now op db)) = participants (fst (begin_op J now op db))"
    by (auto simp: handle_def resume_participants split: prod.splits progress.splits)
       (metis fst_conv resume_participants)
  have a: "op \<noteq> Cleanup \<longrightarrow>
      (\<exists>extra. participants (fst (handle J ai now op db))
                = map (submitted_row J op db) (participants db) @ extra)"
    using begin_op_participants [of op J now db] by (simp add: handle_parts)
  have b: "op = Cleanup \<longrightarrow>
      (\<exists>keep. participants (fst (handle J ai now op db)) = filter keep (participants db))"
    by (auto simp: handle_def cleanupOldSessions_def Let_def)
  show ?thesis
    using a b by (auto simp: submitted_row_def split: operation.splits if_splits)
qed

theorem participant_rows_preserved_witness:
  "submitted_row json_atoms (SubmitAnswers (lit ''s1'') (lit ''p2'') (Some (JBool True))) lounge bob
     = bob\<lparr>answers := Some (lit ''true''), completed := True\<rparr>
   \<and> participants (fst (handle json_atoms no_key 0
         (SubmitAnswers (lit ''s1'') (lit ''p2'') (Some (JBool True))) lounge))
     = [alice, bob\<lparr>answers := Some (lit ''true''), completed := True\<rparr>]"
proof -
  let ?op = "SubmitAnswers (lit ''s1'') (lit ''p2'') (Some (JBool True))"
  have row: "submitted_row json_atoms ?op lounge bob
      = bob\<lparr>answers := Some (lit ''true''), completed := True\<rparr>"
    by (simp add: submitted_row_def find_participant_def lounge_def alice_def bob_def
        stringify_opt_def json_atoms_def lit_def)
  have same: "submitted_row json_atoms ?op lounge alice = alice"
    by (simp add: submitted_row_def alice_def lit_def)
  have after: "participants (fst (handle json_atoms no_key 0 ?op lounge))
      = [alice, bob\<lparr>answers := Some (lit ''true''), completed := True\<rparr>]"
    by code_simp
  from participant_rows_preserved [of ?op json_atoms no_key 0 lounge bob] row after
  show ?thesis by simp
qed

text \<open>
  Claim C9 as stated fails: Alice submits \<open>null\<close> and then \<open>true\<close>, and her stored
  answers change a second time.
\<close>

theorem resubmission_counterexample:
  "map answers (participants (run json_atoms [create_alice, submit_alice JNull] empty_store))
     = [Some (lit ''null'')]
   \<and> map answers (participants (run json_atoms
        [create_alice, submit_alice JNull, submit_alice (JBool True)] empty_store))
     = [Some (lit ''true'')]"
  by code_simp

section \<open>The session row across an operation\<close>

lemma find_session_update_session:
  assumes "\<And>s. s_id (f s) = s_id s"
  shows "find_session (update_session i f db) sid
       = map_option (\<lambda>s. if s_id s = i then f s else s) (find_session db sid)"
proof -
  have "find (\<lambda>s. s_id s = sid) (map (\<lambda>s. if s_id s = i then f s else s) xs)
      = map_option (\<lambda>s. if s_id s = i then f s else s) (find (\<lambda>s. s_id s = sid) xs)" for xs
    by (induction xs) (auto simp: assms)
  then show ?thesis by (simp add: find_session_def update_session_def)
qed

lemma find_session_update_participant [simp]:
  "find_session (update_participant pid f db) sid = find_session db sid"
  by (simp add: find_session_def update_participant_def)

lemma find_append:
  "find P (xs @ ys) = (case find P xs of None \<Rightarrow> find P ys | Some x \<Rightarrow> Some x)"
  by (induction xs) auto

lemma find_session_insert_session:
  "insert_session s db = Inr db' \<Longrightarrow>
   find_session db' sid = (if sid = s_id s then Some s else find_session db sid)"
  by (auto simp: insert_session_def find_session_def find_append split: if_splits option.splits)

lemma find_session_insert_participant:
  "insert_participant p db = Inr db' \<Longrightarrow> find_session db' sid = find_session db sid"
  by (auto simp: insert_participant_def find_session_def split: if_splits)

lemma create_session_keeps:
  assumes "find_session db sid = Some s"
  shows "find_session (fst (create_session v i pid now db)) sid = Some s"
proof (cases "sanitize v = []")
  case True
  with assms show ?thesis by (simp add: create_session_def)
next
  case False
  let ?row = "\<lparr> s_id = i, status = Lobby, host_name = stored_text (sanitize v), results = None,
                s_created_at = now \<rparr>"
  show ?thesis
  proof (cases "insert_session ?row db")
    case (Inl e)
    with False assms show ?thesis by (simp add: create_session_def)
  next
    case (Inr db1)
    from Inr assms have "i \<noteq> sid"
      by (auto simp: insert_session_def split: if_splits)
    with find_session_insert_session [OF Inr, of sid] assms
    have s1: "find_session db1 sid = Some s" by simp
    show ?thesis
      using False Inr s1
      by (auto simp: create_session_def split: sum.splits
          dest: find_session_insert_participant [where sid = sid])
  qed
qed

lemma join_session_keeps:
  "find_session (fst (join_session i v pid now db)) sid = find_session db sid"
  by (auto simp: join_session_def Let_def split: sum.splits option.splits
      dest: find_session_insert_participant [where sid = sid])

lemma start_quiz_session:
  assumes "find_session db sid = Some s"
  shows "find_session (fst (start_quiz i db)) sid
       = Some (if i = sid then s\<lparr>status := Collecting\<rparr> else s)"
proof -
  from assms have "s_id s = sid"
    by (auto simp: find_session_def dest: find_Some_iff [THEN iffD1])
  with assms show ?thesis
    by (auto simp: start_quiz_def find_session_update_session split: option.splits)
qed

lemma submit_begin_session:
  assumes "find_session db sid = Some s"
  shows "find_session (fst (submit_begin J i pid a db)) sid = Some s
       \<or> find_session (fst (submit_begin J i pid a db)) sid = Some (s\<lparr>status := Complete\<rparr>)"
  using assms
  by (auto simp: submit_begin_def Let_def find_session_update_session split: option.splits)

lemma close_begin_keeps [simp]: "fst (close_begin i db) = db"
  by (simp add: close_begin_def Let_def split: option.splits)

lemma resume_session:
  assumes "find_session db sid = Some s"
  shows "find_session (fst (resume J ai h i ps db)) sid = Some s
       \<or> (\<exists>r. find_session (fst (resume J ai h i ps db)) sid
                = Some (s\<lparr>results := Some r, status := Complete\<rparr>))"
  using assms
  by (auto simp: resume_def find_session_update_session split: sum.splits)

lemma begin_op_not_start:
  assumes "find_session db sid = Some s" "op \<noteq> Cleanup" "op \<noteq> StartQuiz sid"
  shows "find_session (fst (begin_op J now op db)) sid = Some s
       \<or> find_session (fst (begin_op J now op db)) sid = Some (s\<lparr>status := Complete\<rparr>)"
proof (cases op)
  case (CreateSession v i pid)
  with create_session_keeps [OF assms(1), of v i pid now] show ?thesis
    by (cases "create_session v i pid now db") auto
next
  case (JoinSession i v pid)
  with join_session_keeps [of i v pid now db sid] assms(1) show ?thesis
    by (cases "join_session i v pid now db") auto
next
  case (StartQuiz i)
  with start_quiz_session [OF assms(1), of i] assms(3) show ?thesis
    by (cases "start_quiz i db") auto
next
  case (SubmitAnswers i pid a)
  with submit_begin_session [OF assms(1)] show ?thesis by simp
qed (use assms in simp_all)

lemma handle_not_start:
  assumes "find_session db sid = Some s" "op \<noteq> Cleanup" "op \<noteq> StartQuiz sid"
  shows "\<exists>s'. find_session (fst (handle J ai now op db)) sid = Some s' \<and> moved s s'"
proof -
  obtain db1 ev pr where b: "begin_op J now op db = (db1, ev, pr)"
    by (cases "begin_op J now op db") auto
  from begin_op_not_start [OF assms, of J now] b
  have s1: "find_session db1 sid = Some s \<or> find_session db1 sid = Some (s\<lparr>status := Complete\<rparr>)"
    by simp
  show ?thesis
  proof (cases pr)
    case (Done r)
    with b s1 show ?thesis by (auto simp: handle_def moved_def)
  next
    case (Await h i ps)
    from s1 obtain s1' where s1': "find_session db1 sid = Some s1'"
      and m: "s1' = s \<or> s1' = s\<lparr>status := Complete\<rparr>" by auto
    from resume_session [OF s1', of J ai h i ps] m
    have "\<exists>s'. find_session (fst (resume J ai h i ps db1)) sid = Some s' \<and> moved s s'"
      by (auto simp: moved_def)
    with b Await show ?thesis by (auto simp: handle_def split: prod.splits)
  qed
qed

lemma handle_start_eq:
  assumes "find_session db sid = Some s"
  shows "handle J ai now (StartQuiz sid) db
       = (update_session sid (\<lambda>s. s\<lparr>status := Collecting\<rparr>) db, [questions_ready sid], QuizStarted)"
  using assms by (simp add: handle_def start_quiz_def)

lemma handle_start_find:
  assumes "find_session db sid = Some s"
  shows "find_session (fst (handle J ai now (StartQuiz sid) db)) sid
       = Some (s\<lparr>status := Collecting\<rparr>)"
  using start_quiz_session [OF assms, of sid]
  by (cases "start_quiz sid db") (simp add: handle_def)

lemma moved_status:
  "moved s s' \<Longrightarrow> rank (status s) \<le> rank (status s') \<and> (status s \<noteq> Lobby \<longrightarrow> status s' \<noteq> Lobby)"
  by (cases "status s") (auto simp: moved_def)

lemma status_step:
  assumes "find_session db sid = Some s" "op \<noteq> Cleanup"
  shows "\<exists>s'. find_session (fst (handle J ai now op db)) sid = Some s'
       \<and> (status s \<noteq> Lobby \<longrightarrow> status s' \<noteq> Lobby)
       \<and> (op \<noteq> StartQuiz sid \<longrightarrow> rank (status s) \<le> rank (status s'))"
proof (cases "op = StartQuiz sid")
  case True
  with handle_start_find [OF assms(1), of J ai now] show ?thesis by simp
next
  case False
  from handle_not_start [OF assms False, of J ai now] moved_status show ?thesis by blast
qed

text \<open>
  Claim C3 (as amended).  Through every sequence of CreateSession, JoinSession,
  StartQuiz, SubmitAnswers, CloseEarly and reads, an existing session stays in the store,
  its status never returns to \<open>lobby\<close> once it has left it, and its status never moves
  backward as long as no StartQuiz is invoked on it.  StartQuiz itself always writes
  \<open>collecting\<close> and emits the ready event: on a session in \<open>collecting\<close> the row is
  unchanged, on a session in \<open>complete\<close> the status moves back to \<open>collecting\<close>.
\<close>

theorem status_moves:
  assumes "find_session db sid = Some s"
    and "\<forall>c \<in> set calls. fst c \<noteq> Cleanup"
  shows "(\<exists>s'. find_session (run J calls db) sid = Some s'
            \<and> (status s \<noteq> Lobby \<longrightarrow> status s' \<noteq> Lobby)
            \<and> ((\<forall>c \<in> set calls. fst c \<noteq> StartQuiz sid) \<longrightarrow> rank (status s) \<le> rank (status s')))
       \<and> handle J ai now (StartQuiz sid) db
            = (update_session sid (\<lambda>s. s\<lparr>status := Collecting\<rparr>) db, [questions_ready sid], QuizStarted)
       \<and> find_session (fst (handle J ai now (StartQuiz sid) db)) sid
            = Some (s\<lparr>status := Collecting\<rparr>)"
proof -
  have seq: "\<exists>s'. find_session (run J calls db) sid = Some s'
            \<and> (status s \<noteq> Lobby \<longrightarrow> status s' \<noteq> Lobby)
            \<and> ((\<forall>c \<in> set calls. fst c \<noteq> StartQuiz sid) \<longrightarrow> rank (status s) \<le> rank (status s'))"
    using assms
  proof (induction calls arbitrary: db s)
    case Nil
    then show ?case by simp
  next
    case (Cons c calls)
    obtain op ai' now' where c: "c = (op, ai', now')" by (cases c) auto
    with Cons.prems have op: "op \<noteq> Cleanup" by simp
    from status_step [OF Cons.prems(1) op, of J ai' now']
    obtain s1 where s1: "find_session (fst (handle J ai' now' op db)) sid = Some s1"
      and lob: "status s \<noteq> Lobby \<longrightarrow> status s1 \<noteq> Lobby"
      and mono: "op \<noteq> StartQuiz sid \<longrightarrow> rank (status s) \<le> rank (status s1)"
      by blast
    from Cons.prems have rest: "\<forall>c \<in> set calls. fst c \<noteq> Cleanup" by simp
    from Cons.IH [OF s1 rest]
    obtain s' where s': "find_session (run J calls (fst (handle J ai' now' op db))) sid = Some s'"
      and lob': "status s1 \<noteq> Lobby \<longrightarrow> status s' \<noteq> Lobby"
      and mono': "(\<forall>c \<in> set calls. fst c \<noteq> StartQuiz sid) \<longrightarrow> rank (status s1) \<le> rank (status s')"
      by blast
    from s' lob lob' mono mono' c show ?case by auto
  qed
  from seq handle_start_eq [OF assms(1), of J ai now] handle_start_find [OF assms(1), of J ai now]
  show ?thesis by blast
qed

theorem status_moves_witness:
  "find_session lounge (lit ''s1'') = Some party
   \<and> status party = Collecting
   \<and> (\<exists>s'. find_session (run json_atoms
               [(SubmitAnswers (lit ''s1'') (lit ''p2'') (Some JNull), no_key, 0),
                (JoinSession (lit ''s1'') (Some (JStr (lit ''Cy''))) (lit ''p3''), no_key, 0)]
               lounge) (lit ''s1'') = Some s'
          \<and> status s' \<noteq> Lobby \<and> rank (status party) \<le> rank (status s'))"
proof -
  let ?calls = "[(SubmitAnswers (lit ''s1'') (lit ''p2'') (Some JNull), no_key, 0),
                 (JoinSession (lit ''s1'') (Some (JStr (lit ''Cy''))) (lit ''p3''), no_key, 0)]"
  have h1: "find_session lounge (lit ''s1'') = Some party"
    by (simp add: find_session_def lounge_def party_def)
  have h2: "\<forall>c \<in> set ?calls. fst c \<noteq> Cleanup" by simp
  have h3: "\<forall>c \<in> set ?calls. fst c \<noteq> StartQuiz (lit ''s1'')" by simp
  have st: "status party = Collecting" by (simp add: party_def)
  from status_moves [OF h1 h2, of json_atoms no_key 0] h3 h1 st show ?thesis by auto
qed

text \<open>
  Claim C3 as stated fails: after Alice, alone in her session, has submitted, the session
  is complete, and a further StartQuiz moves it back to \<open>collecting\<close>.
\<close>

theorem status_backward_counterexample:
  "map status (sessions (run json_atoms [create_alice, start_s1, submit_null_alice] empty_store))
     = [Complete]
   \<and> map status (sessions (run json_atoms [create_alice, start_s1, submit_null_alice, start_s1]
        empty_store))
     = [Collecting]"
  by code_simp

section \<open>Results and status\<close>

lemma sessions_update_participant [simp]:
  "sessions (update_participant pid f db) = sessions db"
  by (simp add: update_participant_def)

lemma map_s_id_update:
  assumes "\<And>s. s_id (f s) = s_id s"
  shows "map s_id (sessions (update_session i f db)) = map s_id (sessions db)"
  by (simp add: update_session_def assms o_def cong: map_cong)

lemma settled_update_results:
  "settled db \<Longrightarrow> settled (update_session i (\<lambda>s. s\<lparr>results := Some r, status := Complete\<rparr>) db)"
  by (auto simp: settled_def update_session_def list_all_iff)

lemma settled_update_collecting:
  "settled db \<Longrightarrow> settled (update_session i (\<lambda>s. s\<lparr>status := Collecting\<rparr>) db)"
  by (auto simp: settled_def update_session_def list_all_iff)

lemma find_session_unique:
  assumes "distinct (map s_id (sessions db))" "find_session db i = Some s"
    "x \<in> set (sessions db)" "s_id x = i"
  shows "x = s"
proof -
  from assms(2) have "s \<in> set (sessions db)" "s_id s = i"
    by (auto simp: find_session_def find_Some_iff)
  with assms(1,3,4) show ?thesis
    by (metis distinct_map inj_onD)
qed

lemma settled_update_complete:
  assumes "settled db" "distinct (map s_id (sessions db))"
    "find_session db i = Some s" "status s = Complete"
  shows "settled (update_session i (\<lambda>s. s\<lparr>status := Complete\<rparr>) db)"
proof -
  have "results x \<noteq> None" if "x \<in> set (sessions db)" "s_id x = i" for x
  proof -
    from find_session_unique [OF assms(2,3) that] have "x = s" .
    with assms(1,4) that(1) show ?thesis by (auto simp: settled_def list_all_iff)
  qed
  with assms(1) show ?thesis
    by (auto simp: settled_def update_session_def list_all_iff)
qed

lemma update_session_absent:
  assumes "find_session db i = None"
  shows "update_session i f db = db"
proof -
  from assms have "\<forall>x \<in> set (sessions db). s_id x \<noteq> i"
    by (auto simp: find_session_def find_None_iff)
  then have "map (\<lambda>s. if s_id s = i then f s else s) (sessions db) = sessions db"
    by (induction "sessions db") (auto simp: map_idI)
  then show ?thesis by (simp add: update_session_def)
qed

lemma store_ok_alt:
  "store_ok J db \<longleftrightarrow> distinct (map s_id (sessions db)) \<and> (\<forall>p \<in> set (participants db). pok J p)"
  by (simp add: store_ok_def pok_def list_all_iff)

lemma pok_fresh:
  "JSON_parse J (lit ''{}'') \<noteq> None \<Longrightarrow> answers p = None \<Longrightarrow> pok J p"
  by (simp add: pok_def answers_text_def)

lemma pok_submitted:
  assumes "JSON_parse J (lit ''{}'') \<noteq> None" "\<forall>v. JSON_parse J (JSON_stringify J v) \<noteq> None"
  shows "pok J (p\<lparr>answers := stringify_opt J a, completed := True\<rparr>)"
  using assms by (cases a) (simp_all add: pok_def answers_text_def stringify_opt_def)

lemma store_ok_update_session:
  assumes "\<And>s. s_id (f s) = s_id s"
  shows "store_ok J (update_session i f db) = store_ok J db"
proof -
  have "participants (update_session i f db) = participants db"
    by (simp add: update_session_def)
  with map_s_id_update [of f i db, OF assms] show ?thesis
    by (simp add: store_ok_def)
qed

lemma insert_session_inv:
  assumes "insert_session s db = Inr db1" "store_ok J db" "settled db" "status s = Lobby"
  shows "store_ok J db1 \<and> settled db1"
proof -
  from assms(1) have absent: "find_session db (s_id s) = None"
    and db1: "db1 = db\<lparr>sessions := sessions db @ [s]\<rparr>"
    by (auto simp: insert_session_def split: if_splits)
  from absent have "s_id s \<notin> s_id ` set (sessions db)"
    by (auto simp: find_session_def find_None_iff)
  with assms(2-4) db1 show ?thesis
    by (simp add: store_ok_alt settled_def)
qed

lemma insert_participant_inv:
  assumes "insert_participant p db = Inr db1" "store_ok J db" "settled db" "pok J p"
  shows "store_ok J db1 \<and> settled db1"
proof -
  from assms(1) have "db1 = db\<lparr>participants := participants db @ [p]\<rparr>"
    by (auto simp: insert_participant_def split: if_splits)
  with assms(2-4) show ?thesis
    by (simp add: store_ok_alt settled_def)
qed

lemma create_session_inv:
  assumes rt: "JSON_parse J (lit ''{}'') \<noteq> None" and ok: "store_ok J db" "settled db"
  shows "store_ok J (fst (create_session v i pid now db)) \<and> settled (fst (create_session v i pid now db))"
proof (cases "sanitize v = []")
  case True
  with ok show ?thesis by (simp add: create_session_def)
next
  case False
  let ?s = "\<lparr> s_id = i, status = Lobby, host_name = stored_text (sanitize v), results = None, s_created_at = now \<rparr>"
  let ?p = "\<lparr> p_id = pid, session_id = i, name = stored_text (sanitize v), answers = None, completed = False,
              p_created_at = now \<rparr>"
  show ?thesis
  proof (cases "insert_session ?s db")
    case (Inl e)
    with False ok show ?thesis by (simp add: create_session_def)
  next
    case (Inr db1)
    from insert_session_inv [OF Inr ok] have ok1: "store_ok J db1" "settled db1" by simp_all
    show ?thesis
    proof (cases "insert_participant ?p db1")
      case (Inl e)
      with False Inr ok1 show ?thesis by (simp add: create_session_def)
    next
      case (Inr db2)
      have "pok J ?p" using rt by (simp add: pok_fresh)
      from insert_participant_inv [OF Inr ok1 this] False \<open>insert_session ?s db = Inr db1\<close> Inr
      show ?thesis by (simp add: create_session_def)
    qed
  qed
qed

lemma join_session_inv:
  assumes rt: "JSON_parse J (lit ''{}'') \<noteq> None" and ok: "store_ok J db" "settled db"
  shows "store_ok J (fst (join_session i v pid now db)) \<and> settled (fst (join_session i v pid now db))"
proof (cases "sanitize v = [] \<or> find_session db i = None")
  case True
  with ok show ?thesis by (auto simp: join_session_def Let_def)
next
  case False
  let ?p = "\<lparr> p_id = pid, session_id = i, name = stored_text (sanitize v), answers = None, completed = False,
              p_created_at = now \<rparr>"
  show ?thesis
  proof (cases "insert_participant ?p db")
    case (Inl e)
    with False ok show ?thesis by (auto simp: join_session_def Let_def)
  next
    case (Inr db1)
    have "pok J ?p" using rt by (simp add: pok_fresh)
    from insert_participant_inv [OF Inr ok this] False Inr
    show ?thesis by (auto simp: join_session_def Let_def)
  qed
qed

lemma start_quiz_inv:
  assumes ok: "store_ok J db" "settled db"
  shows "store_ok J (fst (start_quiz i db)) \<and> settled (fst (start_quiz i db))"
  using assms settled_update_collecting [of db i]
  by (auto simp: start_quiz_def store_ok_update_session split: option.splits)

lemma cleanup_inv:
  assumes ok: "store_ok J db" "settled db"
  shows "store_ok J (cleanupOldSessions now db) \<and> settled (cleanupOldSessions now db)"
proof -
  let ?keep = "\<lambda>s. \<not> s_created_at s < now - 24 * 60 * 60"
  from ok have "distinct (map s_id (filter ?keep (sessions db)))"
    by (simp add: store_ok_alt distinct_map_filter)
  with ok show ?thesis
    by (simp add: cleanupOldSessions_def Let_def store_ok_alt settled_def list_all_iff)
qed

lemma generateResults_pok:
  assumes "\<forall>p \<in> set ps. pok J p"
  shows "\<exists>res. generateResults J ai ps = Inr res"
proof -
  from assms obtain pd where "participantData J ps = Inr pd"
    using participantData_total [of ps J] by (auto simp: pok_def)
  then show ?thesis by (simp add: generateResults_cases)
qed

lemma resume_inv:
  assumes ok: "store_ok J db" "settled db" and ps: "\<forall>p \<in> set ps. pok J p"
  shows "store_ok J (fst (resume J ai h i ps db)) \<and> settled (fst (resume J ai h i ps db))"
proof -
  from generateResults_pok [OF ps] obtain res where res: "generateResults J ai ps = Inr res"
    by blast
  with ok settled_update_results [of db i] show ?thesis
    by (simp add: resume_def store_ok_update_session)
qed

lemma settled_after_results:
  assumes "\<forall>x \<in> set (sessions db). s_id x \<noteq> i \<longrightarrow> status x = Complete \<longrightarrow> results x \<noteq> None"
  shows "settled (update_session i (\<lambda>s. s\<lparr>results := Some r, status := Complete\<rparr>) db)"
  using assms by (auto simp: settled_def list_all_iff update_session_def)

lemma resume_inv_unsettled:
  assumes ok: "store_ok J db" and ps: "\<forall>p \<in> set ps. pok J p"
    and rest: "\<forall>x \<in> set (sessions db). s_id x \<noteq> i \<longrightarrow> status x = Complete \<longrightarrow> results x \<noteq> None"
  shows "store_ok J (fst (resume J ai h i ps db)) \<and> settled (fst (resume J ai h i ps db))"
proof -
  from generateResults_pok [OF ps] obtain res where res: "generateResults J ai ps = Inr res"
    by blast
  with ok settled_after_results [OF rest] show ?thesis
    by (simp add: resume_def store_ok_update_session)
qed

lemma submit_inv:
  assumes rt: "JSON_parse J (lit ''{}'') \<noteq> None" "\<forall>v. JSON_parse J (JSON_stringify J v) \<noteq> None"
    and ok: "store_ok J db" "settled db"
  shows "store_ok J (fst (handle J ai now (SubmitAnswers i pid a) db))
       \<and> settled (fst (handle J ai now (SubmitAnswers i pid a) db))"
proof (cases "find_participant db pid i")
  case None
  with ok show ?thesis by (simp add: handle_def submit_begin_def)
next
  case (Some q)
  define db1 where "db1 = update_participant pid
      (\<lambda>p. p\<lparr>answers := stringify_opt J a, completed := True\<rparr>) db"
  define db2 where "db2 = update_session i (\<lambda>s. s\<lparr>status := Complete\<rparr>) db1"
  have ok1: "store_ok J db1" "settled db1"
    using ok pok_submitted [OF rt]
    by (auto simp: db1_def store_ok_alt settled_def update_participant_def)
  have ps: "\<forall>p \<in> set (participants_of db1 i). pok J p"
    using ok1 by (auto simp: store_ok_alt participants_of_def)
  show ?thesis
  proof (cases "list_all completed (participants_of db1 i)")
    case False
    with Some ok1 show ?thesis
      by (simp add: handle_def submit_begin_def Let_def db1_def)
  next
    case True
    show ?thesis
    proof (cases "find_session db1 i")
      case None
      then have "db2 = db1" by (simp add: db2_def update_session_absent)
      with Some True None ok1 show ?thesis
        by (simp add: handle_def submit_begin_def Let_def db1_def [symmetric] db2_def [symmetric])
    next
      case (Some s)
      have ok2: "store_ok J db2"
        using ok1 by (simp add: db2_def store_ok_update_session)
      show ?thesis
      proof (cases "status s = Complete")
        case c: True
        from ok1 Some c have "settled db2"
          unfolding db2_def by (intro settled_update_complete) (simp_all add: store_ok_alt)
        with \<open>find_participant db pid i = Some q\<close> True Some c ok2 show ?thesis
          by (simp add: handle_def submit_begin_def Let_def db1_def [symmetric] db2_def [symmetric])
      next
        case c: False
        have rest: "\<forall>x \<in> set (sessions db2). s_id x \<noteq> i \<longrightarrow> status x = Complete \<longrightarrow> results x \<noteq> None"
          using ok1 by (auto simp: db2_def update_session_def settled_def list_all_iff)
        obtain db3 ev3 r3
          where r: "resume J ai SubmitHandler i (participants_of db1 i) db2 = (db3, ev3, r3)"
          by (cases "resume J ai SubmitHandler i (participants_of db1 i) db2") auto
        with resume_inv_unsettled [OF ok2 ps rest, of ai SubmitHandler]
        have "store_ok J db3 \<and> settled db3" by simp
        then show ?thesis
          using \<open>find_participant db pid i = Some q\<close> True Some c r
          by (simp add: handle_def submit_begin_def Let_def db1_def [symmetric] db2_def [symmetric])
      qed
    qed
  qed
qed

lemma close_inv:
  assumes ok: "store_ok J db" "settled db"
  shows "store_ok J (fst (handle J ai now (CloseEarly i) db))
       \<and> settled (fst (handle J ai now (CloseEarly i) db))"
proof -
  let ?ps = "filter (\<lambda>p. session_id p = i \<and> completed p) (participants db)"
  have ps: "\<forall>p \<in> set ?ps. pok J p"
    using ok by (auto simp: store_ok_alt)
  obtain db3 ev3 r3 where r: "resume J ai CloseHandler i ?ps db = (db3, ev3, r3)"
    by (cases "resume J ai CloseHandler i ?ps db") auto
  with resume_inv [OF ok ps, of ai CloseHandler i] have "store_ok J db3 \<and> settled db3" by simp
  with ok r show ?thesis
    by (simp add: handle_def close_begin_def Let_def split: option.splits)
qed

lemma handle_inv:
  assumes rt: "JSON_parse J (lit ''{}'') \<noteq> None" "\<forall>v. JSON_parse J (JSON_stringify J v) \<noteq> None"
    and ok: "store_ok J db" "settled db"
  shows "store_ok J (fst (handle J ai now op db)) \<and> settled (fst (handle J ai now op db))"
proof (cases op)
  case (CreateSession v i pid)
  with create_session_inv [OF rt(1) ok, of v i pid now] show ?thesis
    by (cases "create_session v i pid now db") (simp add: handle_def)
next
  case (JoinSession i v pid)
  with join_session_inv [OF rt(1) ok, of i v pid now] show ?thesis
    by (cases "join_session i v pid now db") (simp add: handle_def)
next
  case (StartQuiz i)
  with start_quiz_inv [OF ok, of i] show ?thesis
    by (cases "start_quiz i db") (simp add: handle_def)
next
  case (SubmitAnswers i pid a)
  with submit_inv [OF rt ok] show ?thesis by simp
next
  case (CloseEarly i)
  with close_inv [OF ok] show ?thesis by simp
next
  case Cleanup
  with cleanup_inv [OF ok, of now] show ?thesis by (simp add: handle_def)
qed (use ok in \<open>simp_all add: handle_def\<close>)

lemma run_inv:
  assumes rt: "JSON_parse J (lit ''{}'') \<noteq> None" "\<forall>v. JSON_parse J (JSON_stringify J v) \<noteq> None"
  shows "store_ok J db \<Longrightarrow> settled db \<Longrightarrow> store_ok J (run J calls db) \<and> settled (run J calls db)"
proof (induction calls arbitrary: db)
  case Nil
  then show ?case by simp
next
  case (Cons c calls)
  obtain op ai now where c: "c = (op, ai, now)" by (cases c) auto
  from handle_inv [OF rt Cons.prems, of ai now op]
  have "store_ok J (fst (handle J ai now op db))" "settled (fst (handle J ai now op db))"
    by simp_all
  from Cons.IH [OF this] c show ?case by simp
qed

lemma wsettled_mono: "wsettled A db \<Longrightarrow> A \<subseteq> B \<Longrightarrow> wsettled B db"
  by (auto simp: wsettled_def)

lemma wsettled_rows:
  assumes "wsettled A db"
    and "\<And>s. s \<in> set (sessions db) \<Longrightarrow> status (g s) = Complete \<Longrightarrow>
           results (g s) \<noteq> None \<or> s_id s \<in> B \<or> (g s = s \<and> s_id s \<in> A)"
    and "\<And>s. s_id (g s) = s_id s" and "A \<subseteq> B"
  shows "wsettled B (db\<lparr>sessions := map g (sessions db)\<rparr>)"
  unfolding wsettled_def
proof (intro ballI impI)
  fix s' assume "s' \<in> set (sessions (db\<lparr>sessions := map g (sessions db)\<rparr>))"
    and c: "status s' = Complete"
  then obtain s where s: "s \<in> set (sessions db)" and s': "s' = g s" by auto
  from assms(2) [OF s] c s' assms(3) [of s] assms(4)
  show "results s' \<noteq> None \<or> s_id s' \<in> B" by auto
qed

lemma wsettled_update_collecting:
  "wsettled A db \<Longrightarrow> wsettled A (update_session i (\<lambda>s. s\<lparr>status := Collecting\<rparr>) db)"
proof -
  assume w: "wsettled A db"
  have "wsettled A (db\<lparr>sessions := map (\<lambda>s. if s_id s = i then s\<lparr>status := Collecting\<rparr> else s) (sessions db)\<rparr>)"
  proof (rule wsettled_rows [OF w])
    fix s assume "s \<in> set (sessions db)"
      and "status (if s_id s = i then s\<lparr>status := Collecting\<rparr> else s) = Complete"
    with w show "results (if s_id s = i then s\<lparr>status := Collecting\<rparr> else s) \<noteq> None \<or> s_id s \<in> A
        \<or> ((if s_id s = i then s\<lparr>status := Collecting\<rparr> else s) = s \<and> s_id s \<in> A)"
      by (auto simp: wsettled_def split: if_splits)
  qed simp_all
  then show ?thesis by (simp add: update_session_def)
qed

lemma wsettled_update_results:
  "wsettled A db \<Longrightarrow>
   wsettled (A - {i}) (update_session i (\<lambda>s. s\<lparr>results := Some r, status := Complete\<rparr>) db)"
  unfolding wsettled_def update_session_def
proof (intro ballI impI)
  fix s'
  assume w: "\<forall>s\<in>set (sessions db). status s = Complete \<longrightarrow> results s \<noteq> None \<or> s_id s \<in> A"
    and m: "s' \<in> set (sessions (db\<lparr>sessions := map (\<lambda>s. if s_id s = i
              then s\<lparr>results := Some r, status := Complete\<rparr> else s) (sessions db)\<rparr>))"
    and c: "status s' = Complete"
  from m obtain s where s: "s \<in> set (sessions db)"
    and s': "s' = (if s_id s = i then s\<lparr>results := Some r, status := Complete\<rparr> else s)" by auto
  show "results s' \<noteq> None \<or> s_id s' \<in> A - {i}"
  proof (cases "s_id s = i")
    case True
    with s' show ?thesis by simp
  next
    case False
    with s' c w s show ?thesis by auto
  qed
qed

lemma wsettled_mark_complete:
  "wsettled A db \<Longrightarrow> wsettled (insert i A) (update_session i (\<lambda>s. s\<lparr>status := Complete\<rparr>) db)"
  unfolding wsettled_def update_session_def
proof (intro ballI impI)
  fix s'
  assume w: "\<forall>s\<in>set (sessions db). status s = Complete \<longrightarrow> results s \<noteq> None \<or> s_id s \<in> A"
    and m: "s' \<in> set (sessions (db\<lparr>sessions := map (\<lambda>s. if s_id s = i
              then s\<lparr>status := Complete\<rparr> else s) (sessions db)\<rparr>))"
    and c: "status s' = Complete"
  from m obtain s where s: "s \<in> set (sessions db)"
    and s': "s' = (if s_id s = i then s\<lparr>status := Complete\<rparr> else s)" by auto
  show "results s' \<noteq> None \<or> s_id s' \<in> insert i A"
  proof (cases "s_id s = i")
    case True
    with s' show ?thesis by simp
  next
    case False
    with s' c w s show ?thesis by auto
  qed
qed

lemma update_session_same:
  assumes "distinct (map s_id (sessions db))" "find_session db i = Some s" "f s = s"
  shows "update_session i f db = db"
proof -
  have "(if s_id x = i then f x else x) = x" if "x \<in> set (sessions db)" for x
    using find_session_unique [OF assms(1,2) that] assms(3) by auto
  then have "map (\<lambda>s. if s_id s = i then f s else s) (sessions db) = sessions db"
    by (simp add: map_idI)
  then show ?thesis by (simp add: update_session_def)
qed


lemma insert_session_w:
  assumes "insert_session s db = Inr db1" "store_ok J db" "wsettled A db" "status s = Lobby"
  shows "store_ok J db1 \<and> wsettled A db1"
proof -
  from assms(1) have absent: "find_session db (s_id s) = None"
    and db1: "db1 = db\<lparr>sessions := sessions db @ [s]\<rparr>"
    by (auto simp: insert_session_def split: if_splits)
  from absent have "s_id s \<notin> s_id ` set (sessions db)"
    by (auto simp: find_session_def find_None_iff)
  with assms(2-4) db1 show ?thesis
    by (auto simp: store_ok_alt wsettled_def)
qed

lemma insert_participant_w:
  assumes "insert_participant p db = Inr db1" "store_ok J db" "wsettled A db" "pok J p"
  shows "store_ok J db1 \<and> wsettled A db1"
proof -
  from assms(1) have "db1 = db\<lparr>participants := participants db @ [p]\<rparr>"
    by (auto simp: insert_participant_def split: if_splits)
  with assms(2-4) show ?thesis
    by (auto simp: store_ok_alt wsettled_def)
qed

lemma create_session_w:
  assumes rt: "JSON_parse J (lit ''{}'') \<noteq> None" and ok: "store_ok J db" "wsettled A db"
  shows "store_ok J (fst (create_session v i pid now db)) \<and> wsettled A (fst (create_session v i pid now db))"
proof (cases "sanitize v = []")
  case True
  with ok show ?thesis by (simp add: create_session_def)
next
  case False
  let ?s = "\<lparr> s_id = i, status = Lobby, host_name = stored_text (sanitize v), results = None,
              s_created_at = now \<rparr>"
  let ?p = "\<lparr> p_id = pid, session_id = i, name = stored_text (sanitize v), answers = None,
              completed = False, p_created_at = now \<rparr>"
  show ?thesis
  proof (cases "insert_session ?s db")
    case (Inl e)
    with False ok show ?thesis by (simp add: create_session_def)
  next
    case (Inr db1)
    from insert_session_w [OF Inr ok] have ok1: "store_ok J db1" "wsettled A db1" by simp_all
    show ?thesis
    proof (cases "insert_participant ?p db1")
      case (Inl e)
      with False Inr ok1 show ?thesis by (simp add: create_session_def)
    next
      case (Inr db2)
      have "pok J ?p" using rt by (simp add: pok_fresh)
      from insert_participant_w [OF Inr ok1 this] False \<open>insert_session ?s db = Inr db1\<close> Inr
      show ?thesis by (simp add: create_session_def)
    qed
  qed
qed

lemma join_session_w:
  assumes rt: "JSON_parse J (lit ''{}'') \<noteq> None" and ok: "store_ok J db" "wsettled A db"
  shows "store_ok J (fst (join_session i v pid now db)) \<and> wsettled A (fst (join_session i v pid now db))"
proof (cases "sanitize v = [] \<or> find_session db i = None")
  case True
  with ok show ?thesis by (auto simp: join_session_def Let_def)
next
  case False
  let ?p = "\<lparr> p_id = pid, session_id = i, name = stored_text (sanitize v), answers = None,
              completed = False, p_created_at = now \<rparr>"
  show ?thesis
  proof (cases "insert_participant ?p db")
    case (Inl e)
    with False ok show ?thesis by (auto simp: join_session_def Let_def)
  next
    case (Inr db1)
    have "pok J ?p" using rt by (simp add: pok_fresh)
    from insert_participant_w [OF Inr ok this] False Inr
    show ?thesis by (auto simp: join_session_def Let_def)
  qed
qed

lemma start_quiz_w:
  assumes ok: "store_ok J db" "wsettled A db"
  shows "store_ok J (fst (start_quiz i db)) \<and> wsettled A (fst (start_quiz i db))"
  using assms wsettled_update_collecting [of A db i]
  by (auto simp: start_quiz_def store_ok_update_session split: option.splits)

lemma cleanup_w:
  assumes ok: "store_ok J db" "wsettled A db"
  shows "store_ok J (cleanupOldSessions now db) \<and> wsettled A (cleanupOldSessions now db)"
proof -
  let ?keep = "\<lambda>s. \<not> s_created_at s < now - 24 * 60 * 60"
  from ok have "distinct (map s_id (filter ?keep (sessions db)))"
    by (simp add: store_ok_alt distinct_map_filter)
  with ok show ?thesis
    by (simp add: cleanupOldSessions_def Let_def store_ok_alt wsettled_def)
qed

lemma resume_w:
  assumes ok: "store_ok J db" "wsettled A db" and ps: "\<forall>p \<in> set ps. pok J p"
  shows "store_ok J (fst (resume J ai h i ps db)) \<and> wsettled (A - {i}) (fst (resume J ai h i ps db))"
proof -
  from generateResults_pok [OF ps] obtain res where res: "generateResults J ai ps = Inr res"
    by blast
  with ok wsettled_update_results [of A db i] show ?thesis
    by (simp add: resume_def store_ok_update_session)
qed

lemma submit_begin_w:
  assumes rt: "JSON_parse J (lit ''{}'') \<noteq> None" "\<forall>v. JSON_parse J (JSON_stringify J v) \<noteq> None"
    and ok: "store_ok J db" "wsettled A db"
  shows "after_begin J A (submit_begin J i pid a db)"
proof (cases "find_participant db pid i")
  case None
  with ok show ?thesis by (simp add: after_begin_def submit_begin_def)
next
  case (Some q)
  define db1 where "db1 = update_participant pid
      (\<lambda>p. p\<lparr>answers := stringify_opt J a, completed := True\<rparr>) db"
  define db2 where "db2 = update_session i (\<lambda>s. s\<lparr>status := Complete\<rparr>) db1"
  have ok1: "store_ok J db1" "wsettled A db1"
    using ok pok_submitted [OF rt]
    by (auto simp: db1_def store_ok_alt wsettled_def update_participant_def)
  have ps: "\<forall>p \<in> set (participants_of db1 i). pok J p"
    using ok1 by (auto simp: store_ok_alt participants_of_def)
  have ok2: "store_ok J db2"
    using ok1 by (simp add: db2_def store_ok_update_session)
  show ?thesis
  proof (cases "list_all completed (participants_of db1 i)")
    case False
    with Some ok1 show ?thesis
      by (simp add: after_begin_def submit_begin_def Let_def db1_def)
  next
    case True
    show ?thesis
    proof (cases "find_session db1 i")
      case None
      then have "db2 = db1" by (simp add: db2_def update_session_absent)
      with Some True None ok1 show ?thesis
        by (simp add: after_begin_def submit_begin_def Let_def db1_def [symmetric] db2_def [symmetric])
    next
      case s: (Some s)
      show ?thesis
      proof (cases "status s = Complete")
        case c: True
        from ok1 have "distinct (map s_id (sessions db1))" by (simp add: store_ok_alt)
        from update_session_same [OF this s, of "\<lambda>s. s\<lparr>status := Complete\<rparr>"] c
        have "db2 = db1" by (simp add: db2_def)
        with Some True s c ok1 show ?thesis
          by (simp add: after_begin_def submit_begin_def Let_def db1_def [symmetric] db2_def [symmetric])
      next
        case c: False
        from wsettled_mark_complete [OF ok1(2), of i] have "wsettled (insert i A) db2"
          by (simp add: db2_def)
        with Some True s c ok2 ps show ?thesis
          by (simp add: after_begin_def submit_begin_def Let_def db1_def [symmetric] db2_def [symmetric])
      qed
    qed
  qed
qed

lemma close_begin_w:
  assumes ok: "store_ok J db" "wsettled A db"
  shows "after_begin J A (close_begin i db)"
  using assms
  by (auto simp: after_begin_def close_begin_def Let_def store_ok_alt split: option.splits)

lemma begin_op_w:
  assumes rt: "JSON_parse J (lit ''{}'') \<noteq> None" "\<forall>v. JSON_parse J (JSON_stringify J v) \<noteq> None"
    and ok: "store_ok J db" "wsettled A db"
  shows "after_begin J A (begin_op J now op db)"
proof (cases op)
  case (CreateSession v i pid)
  with create_session_w [OF rt(1) ok, of v i pid now] show ?thesis
    by (cases "create_session v i pid now db") (simp add: after_begin_def)
next
  case (JoinSession i v pid)
  with join_session_w [OF rt(1) ok, of i v pid now] show ?thesis
    by (cases "join_session i v pid now db") (simp add: after_begin_def)
next
  case (StartQuiz i)
  with start_quiz_w [OF ok, of i] show ?thesis
    by (cases "start_quiz i db") (simp add: after_begin_def)
next
  case (SubmitAnswers i pid a)
  with submit_begin_w [OF rt ok] show ?thesis by simp
next
  case (CloseEarly i)
  with close_begin_w [OF ok] show ?thesis by simp
next
  case Cleanup
  with cleanup_w [OF ok, of now] show ?thesis by (simp add: after_begin_def)
qed (use ok in \<open>simp_all add: after_begin_def\<close>)


lemma synthesizing_iff:
  "synthesizing i srv \<longleftrightarrow> (\<exists>e \<in> set (in_flight srv). fst e = SubmitHandler \<and> fst (snd e) = i)"
  by (simp add: synthesizing_def list_ex_iff)

lemma set_without_nth:
  assumes "k < length xs"
  shows "set xs \<subseteq> insert (xs ! k) (set (take k xs @ drop (Suc k) xs))"
proof -
  from assms have "xs = take k xs @ xs ! k # drop (Suc k) xs" by (rule id_take_nth_drop)
  then have "set xs = set (take k xs @ xs ! k # drop (Suc k) xs)" by simp
  then show ?thesis by auto
qed

lemma step_inv:
  assumes rt: "JSON_parse J (lit ''{}'') \<noteq> None" "\<forall>v. JSON_parse J (JSON_stringify J v) \<noteq> None"
    and inv: "exec_inv J srv"
  shows "exec_inv J (step J a srv)"
proof (cases a)
  case (Start op now)
  let ?A = "{i. synthesizing i srv}"
  from inv have ok: "store_ok J (srv_db srv)" "wsettled ?A (srv_db srv)" and fl: "flights_ok J srv"
    by (simp_all add: exec_inv_def)
  obtain db1 ev pr where b: "begin_op J now op (srv_db srv) = (db1, ev, pr)"
    by (cases "begin_op J now op (srv_db srv)") auto
  from begin_op_w [OF rt ok, of now op] b have ab: "after_begin J ?A (db1, ev, pr)" by simp
  show ?thesis
  proof (cases pr)
    case (Done r)
    with b Start have st: "step J a srv = srv\<lparr>srv_db := db1\<rparr>" by simp
    have same: "{i. synthesizing i (srv\<lparr>srv_db := db1\<rparr>)} = ?A"
      by (simp add: synthesizing_iff)
    from ab Done fl show ?thesis
      unfolding st exec_inv_def same by (simp add: after_begin_def flights_ok_def)
  next
    case (Await h j ps)
    let ?srv' = "srv\<lparr>srv_db := db1, in_flight := in_flight srv @ [(h, j, ps)],
                      synth_calls := synth_calls srv @ [(h, j)]\<rparr>"
    from b Start Await have st: "step J a srv = ?srv'" by simp
    from ab Await have ok1: "store_ok J db1" and pk: "\<forall>p \<in> set ps. pok J p"
      by (simp_all add: after_begin_def)
    from fl pk have fl': "flights_ok J ?srv'" by (auto simp: flights_ok_def)
    have w: "wsettled {i. synthesizing i ?srv'} db1"
    proof (cases h)
      case SubmitHandler
      with ab Await have "wsettled (insert j ?A) db1" by (simp add: after_begin_def)
      moreover from SubmitHandler have "insert j ?A \<subseteq> {i. synthesizing i ?srv'}"
        by (auto simp: synthesizing_iff)
      ultimately show ?thesis by (rule wsettled_mono)
    next
      case CloseHandler
      with ab Await have "wsettled ?A db1" by (simp add: after_begin_def)
      moreover have "?A \<subseteq> {i. synthesizing i ?srv'}"
        by (auto simp: synthesizing_iff)
      ultimately show ?thesis by (rule wsettled_mono)
    qed
    from ok1 fl' w show ?thesis unfolding st exec_inv_def by simp
  qed
next
  case (Resume k ai)
  let ?A = "{i. synthesizing i srv}"
  from inv have ok: "store_ok J (srv_db srv)" "wsettled ?A (srv_db srv)" and fl: "flights_ok J srv"
    by (simp_all add: exec_inv_def)
  show ?thesis
  proof (cases "k < length (in_flight srv)")
    case False
    with Resume inv show ?thesis by simp
  next
    case True
    obtain h i ps where e: "in_flight srv ! k = (h, i, ps)" by (cases "in_flight srv ! k") auto
    let ?rest = "take k (in_flight srv) @ drop (Suc k) (in_flight srv)"
    let ?srv' = "srv\<lparr>srv_db := fst (resume J ai h i ps (srv_db srv)), in_flight := ?rest\<rparr>"
    from Resume True e have st: "step J a srv = ?srv'" by simp
    from True e have mem: "(h, i, ps) \<in> set (in_flight srv)" by (metis nth_mem)
    with fl have pk: "\<forall>p \<in> set ps. pok J p" by (auto simp: flights_ok_def)
    from resume_w [OF ok pk, of ai h i]
    have ok1: "store_ok J (fst (resume J ai h i ps (srv_db srv)))"
      and w1: "wsettled (?A - {i}) (fst (resume J ai h i ps (srv_db srv)))" by simp_all
    have sub: "set ?rest \<subseteq> set (in_flight srv)"
      by (auto dest: in_set_takeD in_set_dropD)
    with fl have fl': "flights_ok J ?srv'" by (auto simp: flights_ok_def)
    have "?A - {i} \<subseteq> {j. synthesizing j ?srv'}"
    proof
      fix j assume "j \<in> ?A - {i}"
      then obtain e' where e': "e' \<in> set (in_flight srv)" "fst e' = SubmitHandler" "fst (snd e') = j"
        and ji: "j \<noteq> i" by (auto simp: synthesizing_iff)
      from e' ji e have "e' \<noteq> in_flight srv ! k" by auto
      with set_without_nth [OF True] e'(1) have "e' \<in> set ?rest" by blast
      with e' show "j \<in> {j. synthesizing j ?srv'}" by (auto simp: synthesizing_iff)
    qed
    with w1 have w: "wsettled {j. synthesizing j ?srv'} (fst (resume J ai h i ps (srv_db srv)))"
      by (rule wsettled_mono)
    from ok1 fl' w show ?thesis unfolding st exec_inv_def by simp
  qed
qed

lemma exec_inv_run:
  assumes rt: "JSON_parse J (lit ''{}'') \<noteq> None" "\<forall>v. JSON_parse J (JSON_stringify J v) \<noteq> None"
  shows "exec_inv J srv \<Longrightarrow> exec_inv J (exec J acts srv)"
proof (induction acts arbitrary: srv)
  case Nil
  then show ?case by simp
next
  case (Cons a acts)
  from step_inv [OF rt Cons.prems] have "exec_inv J (step J a srv)" .
  from Cons.IH [OF this] show ?case by simp
qed

lemma exec_inv_idle: "exec_inv J (idle empty_store)"
  by (simp add: exec_inv_def idle_def empty_store_def store_ok_def flights_ok_def wsettled_def)

lemma step_db_start:
  "srv_db (step J (Start op now) srv) = fst (begin_op J now op (srv_db srv))"
  by (cases "begin_op J now op (srv_db srv)") (auto split: progress.splits)

lemma step_results:
  assumes "\<forall>now. a \<noteq> Start Cleanup now" and s: "find_session (srv_db srv) sid = Some s"
  shows "\<exists>s'. find_session (srv_db (step J a srv)) sid = Some s'
            \<and> (results s \<noteq> None \<longrightarrow> results s' \<noteq> None)
            \<and> (results s' \<noteq> results s \<longrightarrow> status s' = Complete)"
proof (cases a)
  case (Start op now)
  with assms(1) have op: "op \<noteq> Cleanup" by auto
  show ?thesis
  proof (cases "op = StartQuiz sid")
    case True
    from start_quiz_session [OF s, of sid] True Start show ?thesis
      by (cases "start_quiz sid (srv_db srv)") (simp add: step_db_start del: step.simps)
  next
    case False
    from begin_op_not_start [OF s op False, of J now] Start show ?thesis
      by (auto simp: step_db_start simp del: step.simps)
  qed
next
  case (Resume k ai)
  show ?thesis
  proof (cases "k < length (in_flight srv)")
    case False
    with Resume s show ?thesis by simp
  next
    case True
    obtain h i ps where e: "in_flight srv ! k = (h, i, ps)" by (cases "in_flight srv ! k") auto
    from resume_session [OF s, of J ai h i ps] Resume True e show ?thesis by auto
  qed
qed

text \<open>
  Claim C4 (as amended).  With a JSON library that parses \<open>{}\<close> and every text it
  writes: in every state that the server reaches from the empty store by any interleaving
  of handler blocks, a session whose status is \<open>complete\<close> has non-null results or has a
  \<open>submit\<close> handler suspended in the synthesizer (the handler writes \<open>complete\<close> before
  it awaits the synthesis and writes the results after it); so after any sequence of
  operations each run to its answer, a complete session has results.  Across any step
  other than the retention sweep, results once set stay set, and results change only in a
  step that leaves the status \<open>complete\<close>.  (The converse does not hold: StartQuiz on a
  complete session writes \<open>collecting\<close> and leaves the results in place.)
\<close>

theorem results_and_status:
  assumes "JSON_parse J (lit ''{}'') \<noteq> None"
    and "\<forall>v. JSON_parse J (JSON_stringify J v) \<noteq> None"
  shows "(\<forall>s \<in> set (sessions (srv_db (exec J acts (idle empty_store)))).
            status s = Complete \<longrightarrow>
            results s \<noteq> None \<or> synthesizing (s_id s) (exec J acts (idle empty_store)))
     \<and> (\<forall>s \<in> set (sessions (run J calls empty_store)). status s = Complete \<longrightarrow> results s \<noteq> None)
     \<and> ((\<forall>now. a \<noteq> Start Cleanup now) \<and> find_session (srv_db srv) sid = Some s \<longrightarrow>
          (\<exists>s'. find_session (srv_db (step J a srv)) sid = Some s'
               \<and> (results s \<noteq> None \<longrightarrow> results s' \<noteq> None)
               \<and> (results s' \<noteq> results s \<longrightarrow> status s' = Complete)))"
proof -
  from exec_inv_run [OF assms exec_inv_idle, of acts]
  have inter: "\<forall>s \<in> set (sessions (srv_db (exec J acts (idle empty_store)))).
            status s = Complete \<longrightarrow>
            results s \<noteq> None \<or> synthesizing (s_id s) (exec J acts (idle empty_store))"
    by (simp add: exec_inv_def wsettled_def)
  have "store_ok J empty_store" "settled empty_store"
    by (simp_all add: store_ok_def settled_def empty_store_def)
  from run_inv [OF assms this, of calls]
  have reach: "\<forall>s \<in> set (sessions (run J calls empty_store)). status s = Complete \<longrightarrow> results s \<noteq> None"
    by (simp add: settled_def list_all_iff)
  have stepwise: "(\<forall>now. a \<noteq> Start Cleanup now) \<and> find_session (srv_db srv) sid = Some s \<longrightarrow>
          (\<exists>s'. find_session (srv_db (step J a srv)) sid = Some s'
               \<and> (results s \<noteq> None \<longrightarrow> results s' \<noteq> None)
               \<and> (results s' \<noteq> results s \<longrightarrow> status s' = Complete))"
    using step_results [of a srv sid s J] by blast
  from inter reach stepwise show ?thesis by blast
qed

theorem results_and_status_witness:
  "JSON_parse json_atoms (lit ''{}'') \<noteq> None
   \<and> map (\<lambda>s. (s_id s, status s, results s))
        (sessions (srv_db (exec json_atoms alone_submitting (idle empty_store))))
      = [(lit ''s1'', Complete, None)]
   \<and> synthesizing (lit ''s1'') (exec json_atoms alone_submitting (idle empty_store))
   \<and> map status (sessions (run json_atoms [create_alice, submit_null_alice] empty_store)) = [Complete]
   \<and> list_all (\<lambda>s. results s \<noteq> None)
        (sessions (run json_atoms [create_alice, submit_null_alice] empty_store))"
proof -
  have h1: "JSON_parse json_atoms (lit ''{}'') \<noteq> None"
    by (simp add: json_atoms_def)
  have h2: "\<forall>v. JSON_parse json_atoms (JSON_stringify json_atoms v) \<noteq> None"
  proof
    fix v show "JSON_parse json_atoms (JSON_stringify json_atoms v) \<noteq> None"
      by (cases v) (simp_all add: json_atoms_def lit_def)
  qed
  note th = results_and_status [OF h1 h2, of alone_submitting "[create_alice, submit_null_alice]"]
  have rows: "map (\<lambda>s. (s_id s, status s, results s))
        (sessions (srv_db (exec json_atoms alone_submitting (idle empty_store))))
      = [(lit ''s1'', Complete, None)]"
    by code_simp
  then obtain s where s: "s \<in> set (sessions (srv_db (exec json_atoms alone_submitting (idle empty_store))))"
    "s_id s = lit ''s1''" "status s = Complete" "results s = None"
    by (auto simp: map_eq_Cons_conv)
  with th have syn: "synthesizing (lit ''s1'') (exec json_atoms alone_submitting (idle empty_store))"
    by force
  have st: "map status (sessions (run json_atoms [create_alice, submit_null_alice] empty_store))
      = [Complete]"
    by code_simp
  with th have "list_all (\<lambda>s. results s \<noteq> None)
        (sessions (run json_atoms [create_alice, submit_null_alice] empty_store))"
    by (auto simp: list_all_iff)
  with h1 rows syn st show ?thesis by blast
qed

text \<open>
  Claim C4 as stated fails in both directions.  After Alice, alone in her session, has
  submitted and the results are written, a StartQuiz leaves the session in \<open>collecting\<close>
  with the results still there.  And while her \<open>submit\<close> handler is suspended in the
  synthesizer, the session is already \<open>complete\<close> and its results are still NULL.
\<close>

theorem results_without_complete_counterexample:
  "map (\<lambda>s. (status s, results s \<noteq> None))
     (sessions (run json_atoms [create_alice, submit_null_alice, start_s1] empty_store))
   = [(Collecting, True)]
   \<and> map (\<lambda>s. (status s, results s))
       (sessions (srv_db (exec json_atoms alone_submitting (idle empty_store))))
   = [(Complete, None)]"
  by code_simp

section \<open>Submission and early close\<close>

lemma pok_valid:
  "JSON_parse J (lit ''{}'') \<noteq> None \<Longrightarrow> answers_valid J p \<Longrightarrow> pok J p"
  by (simp add: pok_def answers_text_parses)


lemma find_participant_update_session [simp]:
  "find_participant (update_session i f db) pid sid = find_participant db pid sid"
  by (simp add: find_participant_def update_session_def)

lemma find_participant_resume [simp]:
  "find_participant (fst (resume J ai h i ps db)) pid sid = find_participant db pid sid"
  by (simp add: resume_def split: sum.splits)








text \<open>
  Claim C8.  CloseEarly on an existing session, in a store where the stored answers of
  its completed participants are valid JSON: with no completed participant it answers 400
  \<open>No completed participants\<close> and changes nothing; otherwise it calls
  \<open>generateResults\<close> on exactly the completed participants of the session, writes the
  serialized result as \<open>results\<close> with status \<open>complete\<close> whatever the status was,
  emits \<open>results_ready\<close> and answers with the results; a second CloseEarly on the store
  it leaves succeeds again.
\<close>

theorem close_early_effect:
  assumes s: "find_session db sid = Some s"
    and rt: "JSON_parse J (lit ''{}'') \<noteq> None"
    and valid: "\<forall>q \<in> set (filter (\<lambda>p. session_id p = sid \<and> completed p) (participants db)).
                 answers_valid J q"
  defines "finished \<equiv> filter (\<lambda>p. session_id p = sid \<and> completed p) (participants db)"
  shows "(finished = [] \<longrightarrow>
            handle J ai now (CloseEarly sid) db
              = (db, [], Error 400 (lit ''No completed participants'')))
     \<and> (finished \<noteq> [] \<longrightarrow>
          (\<exists>res. generateResults J ai finished = Inr res
               \<and> handle J ai now (CloseEarly sid) db
                   = (update_session sid
                        (\<lambda>s. s\<lparr>results := Some (JSON_stringify J res), status := Complete\<rparr>) db,
                      [results_ready sid res], Closed res)
               \<and> find_session (fst (handle J ai now (CloseEarly sid) db)) sid
                   = Some (s\<lparr>results := Some (JSON_stringify J res), status := Complete\<rparr>)
               \<and> (\<exists>again. snd (snd (handle J ai' now' (CloseEarly sid)
                                      (fst (handle J ai now (CloseEarly sid) db))))
                           = Closed again)))"
proof -
  have sid: "s_id s = sid"
    using s by (auto simp: find_session_def find_Some_iff)
  have pok: "\<forall>q \<in> set finished. pok J q"
    using valid rt by (simp add: finished_def pok_valid)
  have none: "handle J ai now (CloseEarly sid) db
              = (db, [], Error 400 (lit ''No completed participants''))" if "finished = []"
    using s that by (simp add: handle_def close_begin_def finished_def)
  have some: "\<exists>res. generateResults J ai finished = Inr res
               \<and> handle J ai now (CloseEarly sid) db
                   = (update_session sid
                        (\<lambda>s. s\<lparr>results := Some (JSON_stringify J res), status := Complete\<rparr>) db,
                      [results_ready sid res], Closed res)
               \<and> find_session (fst (handle J ai now (CloseEarly sid) db)) sid
                   = Some (s\<lparr>results := Some (JSON_stringify J res), status := Complete\<rparr>)
               \<and> (\<exists>again. snd (snd (handle J ai' now' (CloseEarly sid)
                                      (fst (handle J ai now (CloseEarly sid) db))))
                           = Closed again)" if ne: "finished \<noteq> []"
  proof -
    from generateResults_pok [OF pok] obtain res where res: "generateResults J ai finished = Inr res"
      by blast
    from generateResults_pok [OF pok] obtain res' where res': "generateResults J ai' finished = Inr res'"
      by blast
    let ?db' = "update_session sid
        (\<lambda>s. s\<lparr>results := Some (JSON_stringify J res), status := Complete\<rparr>) db"
    have h: "handle J ai now (CloseEarly sid) db = (?db', [results_ready sid res], Closed res)"
      using s ne res by (simp add: handle_def close_begin_def finished_def [symmetric] resume_def)
    have f: "find_session ?db' sid
        = Some (s\<lparr>results := Some (JSON_stringify J res), status := Complete\<rparr>)"
      using s sid by (simp add: find_session_update_session)
    have parts: "participants ?db' = participants db" by simp
    have "snd (snd (handle J ai' now' (CloseEarly sid) ?db')) = Closed res'"
      using f ne res'
      by (simp add: handle_def close_begin_def parts finished_def [symmetric] resume_def)
    with h f res show ?thesis by simp
  qed
  from none some show ?thesis by blast
qed

theorem close_early_effect_witness:
  "find_session lounge (lit ''s1'') = Some party
   \<and> filter (\<lambda>p. session_id p = lit ''s1'' \<and> completed p) (participants lounge) = [alice]
   \<and> (\<exists>res. generateResults json_atoms no_key [alice] = Inr res
          \<and> handle json_atoms no_key 0 (CloseEarly (lit ''s1'')) lounge
              = (update_session (lit ''s1'')
                   (\<lambda>s. s\<lparr>results := Some (JSON_stringify json_atoms res), status := Complete\<rparr>) lounge,
                 [results_ready (lit ''s1'') res], Closed res))"
proof -
  have h1: "find_session lounge (lit ''s1'') = Some party"
    by (simp add: find_session_def lounge_def party_def)
  have h2: "JSON_parse json_atoms (lit ''{}'') \<noteq> None"
    by (simp add: json_atoms_def)
  have fin: "filter (\<lambda>p. session_id p = lit ''s1'' \<and> completed p) (participants lounge) = [alice]"
    by (simp add: lounge_def alice_def bob_def)
  have h3: "\<forall>q \<in> set (filter (\<lambda>p. session_id p = lit ''s1'' \<and> completed p) (participants lounge)).
      answers_valid json_atoms q"
    unfolding fin by (simp add: answers_valid_def alice_def)
  from close_early_effect [OF h1 h2 h3, of no_key 0 no_key 0] h1 fin
  show ?thesis by auto
qed

section \<open>Synthesis under interleaving\<close>

lemma sealed_rows_update:
  assumes "list_all (\<lambda>s. s_id s = sid \<longrightarrow> status s = Complete) xs"
    and "\<And>s. s_id (f s) = s_id s \<and> status (f s) = Complete"
  shows "list_all (\<lambda>s. s_id s = sid \<longrightarrow> status s = Complete)
           (map (\<lambda>s. if s_id s = i then f s else s) xs)"
  using assms by (induction xs) simp_all

lemma sealed_update_complete:
  "sealed sid db \<Longrightarrow> sealed sid (update_session i (\<lambda>s. s\<lparr>status := Complete\<rparr>) db)"
  unfolding sealed_def update_session_def using sealed_rows_update [where f = "\<lambda>s. s\<lparr>status := Complete\<rparr>"]
  by simp

lemma sealed_update_results:
  "sealed sid db \<Longrightarrow>
   sealed sid (update_session i (\<lambda>s. s\<lparr>results := Some r, status := Complete\<rparr>) db)"
  unfolding sealed_def update_session_def
  using sealed_rows_update [where f = "\<lambda>s. s\<lparr>results := Some r, status := Complete\<rparr>"]
  by simp

lemma sealed_after_complete:
  "sealed sid (update_session sid (\<lambda>s. s\<lparr>status := Complete\<rparr>) db)"
proof -
  have "list_all (\<lambda>s. s_id s = sid \<longrightarrow> status s = Complete)
          (map (\<lambda>s. if s_id s = sid then s\<lparr>status := Complete\<rparr> else s) xs)" for xs
    by (induction xs) simp_all
  then show ?thesis by (simp add: sealed_def update_session_def)
qed

lemma sealed_update_participant [simp]:
  "sealed sid (update_participant pid f db) = sealed sid db"
  by (simp add: sealed_def update_participant_def)

lemma sealed_resume:
  "sealed sid db \<Longrightarrow> sealed sid (fst (resume J ai h i ps db))"
  by (simp add: resume_def sealed_update_results split: sum.splits)

lemma sealed_create:
  assumes "sealed sid db" "i \<noteq> sid"
  shows "sealed sid (fst (create_session v i pid now db))"
  using assms
  by (auto simp: create_session_def Let_def insert_session_def insert_participant_def sealed_def
      split: if_splits)

lemma sealed_join:
  "sealed sid db \<Longrightarrow> sealed sid (fst (join_session i v pid now db))"
  by (auto simp: join_session_def Let_def insert_participant_def sealed_def
      split: if_splits option.splits)

lemma sealed_start:
  assumes "sealed sid db" "i \<noteq> sid"
  shows "sealed sid (fst (start_quiz i db))"
  using assms
  by (auto simp: start_quiz_def sealed_def update_session_def list_all_iff split: option.splits)

lemma sealed_cleanup:
  "sealed sid db \<Longrightarrow> sealed sid (cleanupOldSessions now db)"
  by (simp add: cleanupOldSessions_def Let_def sealed_def list_all_iff)

lemma sealed_find:
  "sealed sid db \<Longrightarrow> find_session db sid = Some s \<Longrightarrow> status s = Complete"
  by (auto simp: sealed_def find_session_def find_Some_iff list_all_iff)

text \<open>The first block of a submission: when it calls the synthesizer and what it leaves.\<close>

lemma submit_begin_cases:
  "(\<exists>r. snd (snd (submit_begin J i pid a db)) = Done r
        \<and> (sealed sid db \<longrightarrow> sealed sid (fst (submit_begin J i pid a db))))
   \<or> (\<exists>ps. snd (snd (submit_begin J i pid a db)) = Await SubmitHandler i ps
        \<and> \<not> sealed i db \<and> sealed i (fst (submit_begin J i pid a db))
        \<and> (sealed sid db \<longrightarrow> sealed sid (fst (submit_begin J i pid a db))))"
proof (cases "find_participant db pid i")
  case None
  then show ?thesis by (simp add: submit_begin_def)
next
  case (Some q)
  define db1 where "db1 = update_participant pid
      (\<lambda>p. p\<lparr>answers := stringify_opt J a, completed := True\<rparr>) db"
  have c1: "sealed x db1 = sealed x db" for x by (simp add: db1_def)
  show ?thesis
  proof (cases "list_all completed (participants_of db1 i)")
    case False
    with Some show ?thesis
      by (simp add: submit_begin_def Let_def db1_def [symmetric] c1)
  next
    case True
    show ?thesis
    proof (cases "find_session db1 i")
      case None
      with Some True show ?thesis
        by (simp add: submit_begin_def Let_def db1_def [symmetric] sealed_update_complete c1)
    next
      case s: (Some s)
      show ?thesis
      proof (cases "status s = Complete")
        case True
        with Some \<open>list_all completed (participants_of db1 i)\<close> s show ?thesis
          by (simp add: submit_begin_def Let_def db1_def [symmetric] sealed_update_complete c1)
      next
        case False
        with s have "\<not> sealed i db1" using sealed_find by blast
        with Some \<open>list_all completed (participants_of db1 i)\<close> s False show ?thesis
          by (simp add: submit_begin_def Let_def db1_def [symmetric] sealed_update_complete
              sealed_after_complete c1)
      qed
    qed
  qed
qed

lemma close_begin_cases:
  "fst (close_begin i db) = db
   \<and> ((\<exists>r. snd (snd (close_begin i db)) = Done r)
      \<or> (\<exists>ps. snd (snd (close_begin i db)) = Await CloseHandler i ps))"
  by (simp add: close_begin_def Let_def split: option.splits)


lemma step_start_done:
  assumes "begin_op J now op (srv_db srv) = (db1, ev, Done r)"
  shows "step J (Start op now) srv = srv\<lparr>srv_db := db1\<rparr>"
  using assms by simp

lemma step_start_await:
  assumes "begin_op J now op (srv_db srv) = (db1, ev, Await h i ps)"
  shows "step J (Start op now) srv
       = srv\<lparr>srv_db := db1, in_flight := in_flight srv @ [(h, i, ps)],
              synth_calls := synth_calls srv @ [(h, i)]\<rparr>"
  using assms by simp

lemma step_sync:
  assumes "begin_op J now op (srv_db srv) = (db1, ev, Done r)"
    and "sealed sid (srv_db srv) \<and> \<not> opens sid (Start op now) \<longrightarrow> sealed sid db1"
  shows "submit_syntheses sid (step J (Start op now) srv) = submit_syntheses sid srv
       \<and> (sealed sid (srv_db srv) \<and> \<not> opens sid (Start op now)
            \<longrightarrow> sealed sid (srv_db (step J (Start op now) srv)))"
  using assms by (simp add: submit_syntheses_def)

lemma step_count:
  "submit_syntheses sid (step J a srv) = submit_syntheses sid srv
     \<and> (sealed sid (srv_db srv) \<and> \<not> opens sid a \<longrightarrow> sealed sid (srv_db (step J a srv)))
   \<or> submit_syntheses sid (step J a srv) = submit_syntheses sid srv + 1
     \<and> \<not> sealed sid (srv_db srv) \<and> sealed sid (srv_db (step J a srv)) \<and> \<not> opens sid a"
proof (cases a)
  case (Resume k ai)
  show ?thesis
  proof (cases "k < length (in_flight srv)")
    case True
    obtain h i ps where "in_flight srv ! k = (h, i, ps)" by (cases "in_flight srv ! k") auto
    with Resume True show ?thesis
      by (simp add: submit_syntheses_def sealed_resume)
  next
    case False
    with Resume show ?thesis by simp
  qed
next
  case (Start op now)
  let ?db = "srv_db srv"
  show ?thesis
  proof (cases op)
    case (CreateSession v i pid)
    obtain db1 ev r where c: "create_session v i pid now ?db = (db1, ev, r)"
      by (cases "create_session v i pid now ?db") auto
    then have b: "begin_op J now op ?db = (db1, ev, Done r)" using CreateSession by simp
    from sealed_create [of sid ?db i v pid now] c
    have "sealed sid ?db \<and> \<not> opens sid (Start op now) \<longrightarrow> sealed sid db1"
      using CreateSession by auto
    from step_sync [OF b this] Start show ?thesis by simp
  next
    case (GetSession i)
    then have b: "begin_op J now op ?db = (?db, [], Done (get_session i ?db))" by simp
    from step_sync [OF b] Start show ?thesis by simp
  next
    case (JoinSession i v pid)
    obtain db1 ev r where c: "join_session i v pid now ?db = (db1, ev, r)"
      by (cases "join_session i v pid now ?db") auto
    then have b: "begin_op J now op ?db = (db1, ev, Done r)" using JoinSession by simp
    from sealed_join [of sid ?db i v pid now] c
    have "sealed sid ?db \<and> \<not> opens sid (Start op now) \<longrightarrow> sealed sid db1" by auto
    from step_sync [OF b this] Start show ?thesis by simp
  next
    case (StartQuiz i)
    obtain db1 ev r where c: "start_quiz i ?db = (db1, ev, r)"
      by (cases "start_quiz i ?db") auto
    then have b: "begin_op J now op ?db = (db1, ev, Done r)" using StartQuiz by simp
    from sealed_start [of sid ?db i] c
    have "sealed sid ?db \<and> \<not> opens sid (Start op now) \<longrightarrow> sealed sid db1"
      using StartQuiz by auto
    from step_sync [OF b this] Start show ?thesis by simp
  next
    case (SubmitAnswers i pid ans)
    obtain db1 ev pr where c: "submit_begin J i pid ans ?db = (db1, ev, pr)"
      by (cases "submit_begin J i pid ans ?db") auto
    then have b: "begin_op J now op ?db = (db1, ev, pr)" using SubmitAnswers by simp
    from submit_begin_cases [of J i pid ans ?db sid] c
    consider (answered) r where "pr = Done r" "sealed sid ?db \<longrightarrow> sealed sid db1"
      | (suspended) ps where "pr = Await SubmitHandler i ps" "\<not> sealed i ?db" "sealed i db1"
          "sealed sid ?db \<longrightarrow> sealed sid db1"
      by auto
    then show ?thesis
    proof cases
      case answered
      with b have b': "begin_op J now op ?db = (db1, ev, Done r)" by simp
      from step_sync [OF b'] answered(2) Start show ?thesis by simp
    next
      case suspended
      with b have b': "begin_op J now op ?db = (db1, ev, Await SubmitHandler i ps)" by simp
      show ?thesis
      proof (cases "i = sid")
        case True
        with step_start_await [OF b'] suspended Start SubmitAnswers show ?thesis
          by (simp add: submit_syntheses_def)
      next
        case False
        with step_start_await [OF b'] suspended Start show ?thesis
          by (simp add: submit_syntheses_def)
      qed
    qed
  next
    case (GetResults i)
    then have b: "begin_op J now op ?db = (?db, [], Done (get_results J i ?db))" by simp
    from step_sync [OF b] Start show ?thesis by simp
  next
    case (CloseEarly i)
    obtain db1 ev pr where c: "close_begin i ?db = (db1, ev, pr)"
      by (cases "close_begin i ?db") auto
    then have b: "begin_op J now op ?db = (db1, ev, pr)" using CloseEarly by simp
    from close_begin_cases [of i ?db] c
    have db1: "db1 = ?db" and pr: "(\<exists>r. pr = Done r) \<or> (\<exists>ps. pr = Await CloseHandler i ps)"
      by auto
    from pr show ?thesis
    proof
      assume "\<exists>r. pr = Done r"
      then obtain r where "pr = Done r" by blast
      with b have b': "begin_op J now op ?db = (db1, ev, Done r)" by simp
      from step_sync [OF b'] db1 Start show ?thesis by simp
    next
      assume "\<exists>ps. pr = Await CloseHandler i ps"
      then obtain ps where "pr = Await CloseHandler i ps" by blast
      with b have b': "begin_op J now op ?db = (db1, ev, Await CloseHandler i ps)" by simp
      from step_start_await [OF b'] db1 Start show ?thesis
        by (simp add: submit_syntheses_def)
    qed
  next
    case Cleanup
    then have b: "begin_op J now op ?db = (cleanupOldSessions now ?db, [], Done NoAnswer)" by simp
    from step_sync [OF b] sealed_cleanup [of sid ?db now] Start show ?thesis by simp
  qed
qed

lemma exec_count:
  "submit_syntheses sid (exec J acts srv)
     \<le> submit_syntheses sid srv + length (filter (opens sid) acts)
         + (if sealed sid (srv_db srv) then 0 else 1)"
proof (induction acts arbitrary: srv)
  case Nil
  show ?case by simp
next
  case (Cons a acts)
  let ?srv' = "step J a srv"
  note IH = Cons.IH [of ?srv']
  from step_count [of sid J a srv] show ?case
  proof
    assume same: "submit_syntheses sid ?srv' = submit_syntheses sid srv
       \<and> (sealed sid (srv_db srv) \<and> \<not> opens sid a \<longrightarrow> sealed sid (srv_db ?srv'))"
    show ?thesis
    proof (cases "opens sid a")
      case True
      with IH same show ?thesis by (simp split: if_splits)
    next
      case False
      with IH same show ?thesis by (auto split: if_splits)
    qed
  next
    assume more: "submit_syntheses sid ?srv' = submit_syntheses sid srv + 1
       \<and> \<not> sealed sid (srv_db srv) \<and> sealed sid (srv_db ?srv') \<and> \<not> opens sid a"
    with IH show ?thesis by simp
  qed
qed

text \<open>
  Claim C1.  In every interleaving of handler blocks, from every state of the server, the
  \<open>submit\<close> handlers call the synthesizer for a session at most once more than the
  session is opened (created, or put back to \<open>collecting\<close> by StartQuiz).  So in an
  interleaving without such a step, however many submissions race to be the last one, they
  call the synthesizer for the session at most once.  The step that makes the call finds
  the session not complete and leaves it complete before the handler is suspended.
\<close>

theorem synthesis_at_most_once:
  "submit_syntheses sid (exec J acts srv)
     \<le> submit_syntheses sid srv + length (filter (opens sid) acts) + 1
   \<and> (list_all (\<lambda>a. \<not> opens sid a) acts \<longrightarrow>
        submit_syntheses sid (exec J acts srv) \<le> submit_syntheses sid srv + 1)
   \<and> (submit_syntheses sid (step J a srv) \<noteq> submit_syntheses sid srv \<longrightarrow>
        submit_syntheses sid (step J a srv) = submit_syntheses sid srv + 1
        \<and> \<not> sealed sid (srv_db srv) \<and> sealed sid (srv_db (step J a srv)))"
proof -
  have bound: "submit_syntheses sid (exec J acts srv)
     \<le> submit_syntheses sid srv + length (filter (opens sid) acts) + 1"
    using exec_count [of sid J acts srv] by (simp split: if_splits)
  have "filter (opens sid) acts = []" if "list_all (\<lambda>a. \<not> opens sid a) acts"
    using that by (simp add: list_all_iff filter_empty_conv)
  with bound have once: "list_all (\<lambda>a. \<not> opens sid a) acts \<longrightarrow>
        submit_syntheses sid (exec J acts srv) \<le> submit_syntheses sid srv + 1"
    by auto
  from step_count [of sid J a srv]
  have atomic: "submit_syntheses sid (step J a srv) \<noteq> submit_syntheses sid srv \<longrightarrow>
        submit_syntheses sid (step J a srv) = submit_syntheses sid srv + 1
        \<and> \<not> sealed sid (srv_db srv) \<and> sealed sid (srv_db (step J a srv))"
    by auto
  from bound once atomic show ?thesis by blast
qed

theorem synthesis_at_most_once_witness:
  "list_all (\<lambda>a. \<not> opens (lit ''s1'') a) race
   \<and> submit_syntheses (lit ''s1'') (idle lounge) = 0
   \<and> submit_syntheses (lit ''s1'') (exec json_atoms race (idle lounge)) \<le> 1
   \<and> synth_calls (exec json_atoms race (idle lounge)) = [(SubmitHandler, lit ''s1'')]"
proof -
  have h: "list_all (\<lambda>a. \<not> opens (lit ''s1'') a) race"
    by (simp add: race_def)
  have z: "submit_syntheses (lit ''s1'') (idle lounge) = 0"
    by (simp add: submit_syntheses_def idle_def)
  have calls: "synth_calls (exec json_atoms race (idle lounge)) = [(SubmitHandler, lit ''s1'')]"
    by code_simp
  from synthesis_at_most_once [of "lit ''s1''" json_atoms race "idle lounge"] h z calls
  show ?thesis by simp
qed

end
